theory Spec2Isabelle
  imports Complex_Main "HOL-Library.Word" "HOL-Library.Monad_Syntax" "HOL-Library.Multiset"
begin

unbundle bit_operations_syntax

section \<open>Packed list (ziplist): byte-level encoding\<close>

text \<open>
  A ziplist is one contiguous allocation. It is modelled as the list of its bytes; a
  pointer into it is the offset from its first byte. Every read or write outside the
  allocation, and every failed \<open>assert\<close>, is the value \<open>None\<close>.
\<close>

type_synonym byte = "8 word"
type_synonym blob = "8 word list"

definition ZIP_END :: byte where "ZIP_END = 255"
definition ZIP_BIGLEN :: nat where "ZIP_BIGLEN = 254"
definition ZIP_STR_MASK :: byte where "ZIP_STR_MASK = 0xc0"
definition ZIP_STR_06B :: byte where "ZIP_STR_06B = 0x00"
definition ZIP_STR_14B :: byte where "ZIP_STR_14B = 0x40"
definition ZIP_STR_32B :: byte where "ZIP_STR_32B = 0x80"
definition ZIP_INT_16B :: byte where "ZIP_INT_16B = 0xc0"
definition ZIP_INT_32B :: byte where "ZIP_INT_32B = 0xd0"
definition ZIP_INT_64B :: byte where "ZIP_INT_64B = 0xe0"
definition ZIP_INT_24B :: byte where "ZIP_INT_24B = 0xf0"
definition ZIP_INT_8B :: byte where "ZIP_INT_8B = 0xfe"
definition ZIP_INT_IMM_MIN :: byte where "ZIP_INT_IMM_MIN = 0xf1"
definition ZIP_INT_IMM_MAX :: byte where "ZIP_INT_IMM_MAX = 0xfd"
definition ZIPLIST_HEADER_SIZE :: nat where "ZIPLIST_HEADER_SIZE = 10"

definition ZIP_IS_STR :: "byte \<Rightarrow> bool" where
  "ZIP_IS_STR enc \<longleftrightarrow> (enc AND ZIP_STR_MASK) < ZIP_STR_MASK"

subsection \<open>Memory access\<close>

definition rd :: "blob \<Rightarrow> nat \<Rightarrow> byte option" where
  "rd zl i = (if i < length zl then Some (zl ! i) else None)"

definition rd_bytes :: "blob \<Rightarrow> nat \<Rightarrow> nat \<Rightarrow> blob option" where
  "rd_bytes zl i n = (if i + n \<le> length zl then Some (take n (drop i zl)) else None)"

definition memcpy :: "blob \<Rightarrow> nat \<Rightarrow> blob \<Rightarrow> blob option" where
  "memcpy zl dst bs =
     (if dst + length bs \<le> length zl
      then Some (take dst zl @ bs @ drop (dst + length bs) zl) else None)"

definition memmove :: "blob \<Rightarrow> nat \<Rightarrow> nat \<Rightarrow> nat \<Rightarrow> blob option" where
  "memmove zl dst src n = do { bs \<leftarrow> rd_bytes zl src n; memcpy zl dst bs }"

subsection \<open>Byte order\<close>

text \<open>
  The macros \<open>memrev16ifbe\<close>, \<open>memrev32ifbe\<close>, \<open>memrev64ifbe\<close> and \<open>intrev32ifbe\<close> of
  endianconv.h reverse the bytes of their operand on a big-endian host and do nothing on a
  little-endian one. The host's byte order is the parameter \<open>be\<close>.
\<close>

definition le_bytes :: "nat \<Rightarrow> 'a::len word \<Rightarrow> blob" where
  "le_bytes n w = map (\<lambda>i. ucast (drop_bit (8 * i) w)) [0..<n]"

fun of_le_bytes :: "blob \<Rightarrow> 'a::len word" where
  "of_le_bytes [] = 0"
| "of_le_bytes (b # bs) = ucast b OR push_bit 8 (of_le_bytes bs)"

definition host_bytes :: "bool \<Rightarrow> nat \<Rightarrow> 'a::len word \<Rightarrow> blob" where
  "host_bytes be n w = (if be then rev (le_bytes n w) else le_bytes n w)"


definition memrevifbe :: "bool \<Rightarrow> blob \<Rightarrow> blob" where
  "memrevifbe be bs = (if be then rev bs else bs)"

subsection \<open>Entry header: encoding and length\<close>

definition zipIntSize :: "byte \<Rightarrow> nat" where
  "zipIntSize encoding =
     (if encoding = ZIP_INT_8B then 1
      else if encoding = ZIP_INT_16B then 2
      else if encoding = ZIP_INT_24B then 3
      else if encoding = ZIP_INT_32B then 4
      else if encoding = ZIP_INT_64B then 8
      else 0)"

text \<open>The buffer \<open>buf\<close> that \<open>zipEncodeLength\<close> fills; its length is the value returned.\<close>

definition zipEncodeLength_buf :: "byte \<Rightarrow> 32 word \<Rightarrow> blob" where
  "zipEncodeLength_buf encoding rawlen =
     (if ZIP_IS_STR encoding then
        (if rawlen \<le> 0x3f then [ZIP_STR_06B OR ucast rawlen]
         else if rawlen \<le> 0x3fff then
           [ZIP_STR_14B OR ucast (drop_bit 8 rawlen AND 0x3f), ucast (rawlen AND 0xff)]
         else
           [ZIP_STR_32B,
            ucast (drop_bit 24 rawlen AND 0xff),
            ucast (drop_bit 16 rawlen AND 0xff),
            ucast (drop_bit 8 rawlen AND 0xff),
            ucast (rawlen AND 0xff)])
      else [encoding])"

text \<open>With \<open>p = NULL\<close> only the size is returned; otherwise the buffer is copied to \<open>p\<close>.\<close>

definition zipEncodeLength :: "blob \<Rightarrow> nat option \<Rightarrow> byte \<Rightarrow> 32 word \<Rightarrow> (blob \<times> nat) option" where
  "zipEncodeLength zl p encoding rawlen =
     (let buf = zipEncodeLength_buf encoding rawlen in
      case p of None \<Rightarrow> Some (zl, length buf)
      | Some q \<Rightarrow> do { zl' \<leftarrow> memcpy zl q buf; Some (zl', length buf) })"

definition ZIP_ENTRY_ENCODING :: "byte \<Rightarrow> byte" where
  "ZIP_ENTRY_ENCODING b = (if b < ZIP_STR_MASK then b AND ZIP_STR_MASK else b)"

text \<open>\<open>ZIP_DECODE_LENGTH(ptr, encoding, lensize, len)\<close>: the triple it assigns.\<close>

definition ZIP_DECODE_LENGTH :: "blob \<Rightarrow> nat \<Rightarrow> (byte \<times> nat \<times> nat) option" where
  "ZIP_DECODE_LENGTH zl ptr = do {
     b0 \<leftarrow> rd zl ptr;
     let encoding = ZIP_ENTRY_ENCODING b0;
     if encoding < ZIP_STR_MASK then
       (if encoding = ZIP_STR_06B then Some (encoding, 1, unat (b0 AND 0x3f))
        else if encoding = ZIP_STR_14B then do {
          b1 \<leftarrow> rd zl (ptr + 1);
          Some (encoding, 2,
            unat (push_bit 8 (ucast (b0 AND 0x3f) :: 32 word) OR ucast b1)) }
        else if encoding = ZIP_STR_32B then do {
          b1 \<leftarrow> rd zl (ptr + 1);
          b2 \<leftarrow> rd zl (ptr + 2);
          b3 \<leftarrow> rd zl (ptr + 3);
          b4 \<leftarrow> rd zl (ptr + 4);
          Some (encoding, 5,
            unat (push_bit 24 (ucast b1 :: 32 word) OR push_bit 16 (ucast b2)
                  OR push_bit 8 (ucast b3) OR ucast b4)) }
        else None)
     else Some (encoding, 1, zipIntSize encoding) }"

subsection \<open>Integer payloads\<close>

text \<open>The bytes \<open>zipSaveInteger\<close> stores at \<open>p\<close>; \<open>None\<close> is the failed \<open>assert(NULL)\<close>.\<close>

definition zipSaveInteger :: "bool \<Rightarrow> 64 word \<Rightarrow> byte \<Rightarrow> blob option" where
  "zipSaveInteger be val encoding =
     (if encoding = ZIP_INT_8B then Some [ucast val]
      else if encoding = ZIP_INT_16B then
        Some (memrevifbe be (host_bytes be 2 (ucast val :: 16 word)))
      else if encoding = ZIP_INT_24B then
        (let i32 = (ucast (push_bit 8 val) :: 32 word)
         in Some (drop 1 (memrevifbe be (host_bytes be 4 i32))))
      else if encoding = ZIP_INT_32B then
        Some (memrevifbe be (host_bytes be 4 (ucast val :: 32 word)))
      else if encoding = ZIP_INT_64B then
        Some (memrevifbe be (host_bytes be 8 val))
      else if ZIP_INT_IMM_MIN \<le> encoding \<and> encoding \<le> ZIP_INT_IMM_MAX then Some []
      else None)"


subsection \<open>Entry header: length of the previous entry\<close>

text \<open>
  The 4-byte length after the \<open>0xFE\<close> marker is copied from the host representation and
  passed through \<open>memrev32ifbe\<close>, which leaves the little-endian bytes on either host;
  the functions below write and read them as such. Lengths are \<open>unsigned int\<close> values.
\<close>

definition zipPrevEncodeLength :: "blob \<Rightarrow> nat option \<Rightarrow> nat \<Rightarrow> (blob \<times> nat) option" where
  "zipPrevEncodeLength zl p len =
     (case p of
        None \<Rightarrow> Some (zl, if len < ZIP_BIGLEN then 1 else 5)
      | Some q \<Rightarrow>
          if len < ZIP_BIGLEN then do { zl' \<leftarrow> memcpy zl q [of_nat len]; Some (zl', 1) }
          else do {
            zl' \<leftarrow> memcpy zl q (of_nat ZIP_BIGLEN # le_bytes 4 (of_nat len :: 32 word));
            Some (zl', 5) })"

definition zipPrevEncodeLengthForceLarge :: "blob \<Rightarrow> nat option \<Rightarrow> nat \<Rightarrow> blob option" where
  "zipPrevEncodeLengthForceLarge zl p len =
     (case p of
        None \<Rightarrow> Some zl
      | Some q \<Rightarrow> memcpy zl q (of_nat ZIP_BIGLEN # le_bytes 4 (of_nat len :: 32 word)))"

definition ZIP_DECODE_PREVLENSIZE :: "blob \<Rightarrow> nat \<Rightarrow> nat option" where
  "ZIP_DECODE_PREVLENSIZE zl ptr = do {
     b0 \<leftarrow> rd zl ptr;
     Some (if unat b0 < ZIP_BIGLEN then 1 else 5) }"

text \<open>\<open>ZIP_DECODE_PREVLEN(ptr, prevlensize, prevlen)\<close>: the pair it assigns.\<close>

definition ZIP_DECODE_PREVLEN :: "blob \<Rightarrow> nat \<Rightarrow> (nat \<times> nat) option" where
  "ZIP_DECODE_PREVLEN zl ptr = do {
     prevlensize \<leftarrow> ZIP_DECODE_PREVLENSIZE zl ptr;
     if prevlensize = 1 then do { b0 \<leftarrow> rd zl ptr; Some (prevlensize, unat b0) }
     else do {
       bs \<leftarrow> rd_bytes zl (ptr + 1) 4;
       Some (prevlensize, unat (of_le_bytes bs :: 32 word)) } }"

definition zipPrevLenByteDiff :: "blob \<Rightarrow> nat \<Rightarrow> nat \<Rightarrow> int option" where
  "zipPrevLenByteDiff zl p len = do {
     prevlensize \<leftarrow> ZIP_DECODE_PREVLENSIZE zl p;
     (_, n) \<leftarrow> zipPrevEncodeLength zl None len;
     Some (int n - int prevlensize) }"

definition zipRawEntryLength :: "blob \<Rightarrow> nat \<Rightarrow> nat option" where
  "zipRawEntryLength zl p = do {
     prevlensize \<leftarrow> ZIP_DECODE_PREVLENSIZE zl p;
     (encoding, lensize, len) \<leftarrow> ZIP_DECODE_LENGTH zl (p + prevlensize);
     Some (prevlensize + lensize + len) }"

record zlentry =
  prevrawlensize :: nat
  prevrawlen :: nat
  lensize :: nat
  len :: nat
  headersize :: nat
  encoding :: byte
  p :: nat

definition zipEntry :: "blob \<Rightarrow> nat \<Rightarrow> zlentry option" where
  "zipEntry zl ptr = do {
     (pls, pl) \<leftarrow> ZIP_DECODE_PREVLEN zl ptr;
     (enc, ls, l) \<leftarrow> ZIP_DECODE_LENGTH zl (ptr + pls);
     Some \<lparr>prevrawlensize = pls, prevrawlen = pl, lensize = ls, len = l,
           headersize = pls + ls, encoding = enc, p = ptr\<rparr> }"

subsection \<open>Payload encoding choice\<close>

text \<open>
  Modelled from the spec: \<open>string2ll\<close> of util.c is not among the sources. The spec's
  payload "parses as a signed integer fitting in 64 bits": an optional minus sign and
  decimal digits without a leading zero (or the single digit 0), the value in the range of
  \<open>long long\<close>.
\<close>

definition is_digit :: "byte \<Rightarrow> bool" where
  "is_digit c \<longleftrightarrow> 0x30 \<le> c \<and> c \<le> 0x39"

fun digits_value :: "int \<Rightarrow> blob \<Rightarrow> int" where
  "digits_value acc [] = acc"
| "digits_value acc (c # cs) = digits_value (acc * 10 + (uint c - 0x30)) cs"

definition string2ll :: "blob \<Rightarrow> int option" where
  "string2ll s =
     (if s = [] then None
      else if s = [0x30] then Some 0
      else
        (let negative = (hd s = 0x2d); ds = (if negative then tl s else s) in
         if ds = [] \<or> \<not> list_all is_digit ds \<or> hd ds = 0x30 then None
         else
           (let v = digits_value 0 ds in
            if negative then (if v > 2 ^ 63 then None else Some (- v))
            else (if v > 2 ^ 63 - 1 then None else Some v))))"

text \<open>\<open>zipTryEncoding\<close>: the pair \<open>(*v, *encoding)\<close> when it returns 1, \<open>None\<close> when 0.\<close>

definition zipTryEncoding :: "blob \<Rightarrow> (int \<times> byte) option" where
  "zipTryEncoding entry =
     (if length entry \<ge> 32 \<or> length entry = 0 then None
      else case string2ll entry of
        None \<Rightarrow> None
      | Some v \<Rightarrow>
          Some (v,
            if v \<ge> 0 \<and> v \<le> 12 then ZIP_INT_IMM_MIN + of_int v
            else if v \<ge> - (2 ^ 7) \<and> v \<le> 2 ^ 7 - 1 then ZIP_INT_8B
            else if v \<ge> - (2 ^ 15) \<and> v \<le> 2 ^ 15 - 1 then ZIP_INT_16B
            else if v \<ge> - (2 ^ 23) \<and> v \<le> 2 ^ 23 - 1 then ZIP_INT_24B
            else if v \<ge> - (2 ^ 31) \<and> v \<le> 2 ^ 31 - 1 then ZIP_INT_32B
            else ZIP_INT_64B))"

section \<open>Packed list: header and operations\<close>

text \<open>
  The three header fields are stored through \<open>intrev32ifbe\<close>/\<open>intrev16ifbe\<close>, that is
  little-endian; the accessors below return and take the logical value.
\<close>

definition ZIPLIST_BYTES :: "blob \<Rightarrow> 32 word option" where
  "ZIPLIST_BYTES zl = do { bs \<leftarrow> rd_bytes zl 0 4; Some (of_le_bytes bs) }"

definition set_ZIPLIST_BYTES :: "blob \<Rightarrow> 32 word \<Rightarrow> blob option" where
  "set_ZIPLIST_BYTES zl v = memcpy zl 0 (le_bytes 4 v)"

definition ZIPLIST_TAIL_OFFSET :: "blob \<Rightarrow> 32 word option" where
  "ZIPLIST_TAIL_OFFSET zl = do { bs \<leftarrow> rd_bytes zl 4 4; Some (of_le_bytes bs) }"

definition set_ZIPLIST_TAIL_OFFSET :: "blob \<Rightarrow> 32 word \<Rightarrow> blob option" where
  "set_ZIPLIST_TAIL_OFFSET zl v = memcpy zl 4 (le_bytes 4 v)"

definition ZIPLIST_LENGTH :: "blob \<Rightarrow> 16 word option" where
  "ZIPLIST_LENGTH zl = do { bs \<leftarrow> rd_bytes zl 8 2; Some (of_le_bytes bs) }"

definition set_ZIPLIST_LENGTH :: "blob \<Rightarrow> 16 word \<Rightarrow> blob option" where
  "set_ZIPLIST_LENGTH zl v = memcpy zl 8 (le_bytes 2 v)"

definition ZIPLIST_INCR_LENGTH :: "blob \<Rightarrow> int \<Rightarrow> blob option" where
  "ZIPLIST_INCR_LENGTH zl incr = do {
     n \<leftarrow> ZIPLIST_LENGTH zl;
     if n < 0xffff then set_ZIPLIST_LENGTH zl (n + of_int incr) else Some zl }"

definition ziplistNew :: blob where
  "ziplistNew =
     le_bytes 4 (of_nat (ZIPLIST_HEADER_SIZE + 1) :: 32 word)
     @ le_bytes 4 (of_nat ZIPLIST_HEADER_SIZE :: 32 word)
     @ le_bytes 2 (0 :: 16 word) @ [ZIP_END]"

text \<open>
  \<open>zrealloc\<close> keeps the first \<open>len\<close> bytes; bytes gained are unspecified in C and are zero
  here (the callers overwrite them before reading).
\<close>

definition zrealloc :: "blob \<Rightarrow> nat \<Rightarrow> blob" where
  "zrealloc zl n = take n zl @ replicate (n - length zl) 0"

definition ziplistResize :: "blob \<Rightarrow> nat \<Rightarrow> blob option" where
  "ziplistResize zl n = do {
     zl1 \<leftarrow> set_ZIPLIST_BYTES (zrealloc zl n) (of_nat n);
     if n = 0 then None else memcpy zl1 (n - 1) [ZIP_END] }"

text \<open>
  A byte count computed in \<open>size_t\<close> arithmetic: a mathematically negative value wraps to
  a count larger than any allocation, so the \<open>memmove\<close> that uses it fails.
\<close>

definition to_size :: "int \<Rightarrow> nat option" where
  "to_size i = (if 0 \<le> i then Some (nat i) else None)"

text \<open>A \<open>size_t\<close> passed for an \<open>unsigned int\<close> parameter.\<close>

definition to_uint :: "int \<Rightarrow> nat" where
  "to_uint i = nat (i mod 2 ^ 32)"

text \<open>Pointer plus a signed byte difference; a pointer before the allocation is invalid.\<close>

definition padd :: "nat \<Rightarrow> int \<Rightarrow> nat option" where
  "padd q d = (if 0 \<le> int q + d then Some (nat (int q + d)) else None)"

subsection \<open>Cascade update\<close>

datatype loop_ctl = Break blob | Continue blob nat nat

text \<open>
  The branch of the loop of \<open>__ziplistCascadeUpdate\<close> that grows the \<open>prevlen\<close> field of
  \<open>next\<close> from 1 to 5 bytes.
\<close>

definition cascade_grow :: "blob \<Rightarrow> nat \<Rightarrow> nat \<Rightarrow> nat \<Rightarrow> nat \<Rightarrow> zlentry \<Rightarrow> loop_ctl option" where
  "cascade_grow zl q curlen rawlen rawlensize next = do {
     let extra = rawlensize - prevrawlensize next;
     zl1 \<leftarrow> ziplistResize zl (to_uint (int (curlen + extra)));
     let np = q + rawlen;
     let noffset = np;
     tail \<leftarrow> ZIPLIST_TAIL_OFFSET zl1;
     zl2 \<leftarrow> (if unat tail \<noteq> np then set_ZIPLIST_TAIL_OFFSET zl1 (tail + of_nat extra)
             else Some zl1);
     n \<leftarrow> to_size (int curlen - int noffset - int (prevrawlensize next) - 1);
     zl3 \<leftarrow> memmove zl2 (np + rawlensize) (np + prevrawlensize next) n;
     (zl4, _) \<leftarrow> zipPrevEncodeLength zl3 (Some np) rawlen;
     Some (Continue zl4 (q + rawlen) (curlen + extra)) }"

text \<open>One iteration of that loop, entered with \<open>p[0] != ZIP_END\<close>.\<close>

definition cascade_body :: "blob \<Rightarrow> nat \<Rightarrow> nat \<Rightarrow> loop_ctl option" where
  "cascade_body zl q curlen = do {
     cur \<leftarrow> zipEntry zl q;
     let rawlen = headersize cur + len cur;
     (_, rawlensize) \<leftarrow> zipPrevEncodeLength zl None rawlen;
     b \<leftarrow> rd zl (q + rawlen);
     if b = ZIP_END then Some (Break zl)
     else do {
       next \<leftarrow> zipEntry zl (q + rawlen);
       if prevrawlen next = rawlen then Some (Break zl)
       else if prevrawlensize next < rawlensize then
         cascade_grow zl q curlen rawlen rawlensize next
       else if prevrawlensize next > rawlensize then do {
         zl1 \<leftarrow> zipPrevEncodeLengthForceLarge zl (Some (q + rawlen)) rawlen;
         Some (Break zl1) }
       else do {
         (zl1, _) \<leftarrow> zipPrevEncodeLength zl (Some (q + rawlen)) rawlen;
         Some (Break zl1) } } }"

function cascade_loop :: "blob \<Rightarrow> nat \<Rightarrow> nat \<Rightarrow> blob option" where
  "cascade_loop zl q curlen =
     (case rd zl q of
        None \<Rightarrow> None
      | Some b \<Rightarrow>
          if b = ZIP_END then Some zl
          else (case cascade_body zl q curlen of
                  None \<Rightarrow> None
                | Some (Break zl') \<Rightarrow> Some zl'
                | Some (Continue zl' q' curlen') \<Rightarrow> cascade_loop zl' q' curlen'))"
  by pat_completeness auto

termination cascade_loop
proof (relation "measure (\<lambda>(zl, q, curlen). curlen - q)", goal_cases)
  case 1 show ?case by simp
next
  case (2 zl q curlen b lc zl' q' curlen')
  then have cb: "cascade_body zl q curlen = Some (Continue zl' q' curlen')" by simp
  obtain cur where c: "zipEntry zl q = Some cur"
    using cb by (cases "zipEntry zl q") (simp_all add: cascade_body_def)
  define rl where "rl = headersize cur + len cur"
  define rls :: nat where "rls = (if rl < ZIP_BIGLEN then 1 else 5)"
  obtain b' where b': "rd zl (q + rl) = Some b'"
    using cb c by (cases "rd zl (q + rl)") (simp_all add: cascade_body_def zipPrevEncodeLength_def rl_def Let_def)
  obtain nxt where n: "zipEntry zl (q + rl) = Some nxt"
    using cb c b' by (cases "zipEntry zl (q + rl)")
      (simp_all add: cascade_body_def zipPrevEncodeLength_def rl_def Let_def split: if_splits)
  have g: "cascade_grow zl q curlen rl rls nxt = Some (Continue zl' q' curlen')"
    and lt: "prevrawlensize nxt < rls"
    using cb c b' n
    by (auto simp add: cascade_body_def zipPrevEncodeLength_def rl_def rls_def Let_def bind_eq_Some_conv
           split: if_splits)
  from g have q': "q' = q + rl"
    and cl: "curlen' = curlen + (rls - prevrawlensize nxt)"
    and us: "q + rl + prevrawlensize nxt + 1 \<le> curlen"
    unfolding cascade_grow_def Let_def to_size_def
    by (auto simp: bind_eq_Some_conv split: if_splits)
  from n obtain pls pl where "ZIP_DECODE_PREVLEN zl (q + rl) = Some (pls, pl)"
      and "prevrawlensize nxt = pls"
    by (auto simp: zipEntry_def bind_eq_Some_conv)
  then have "prevrawlensize nxt = 1 \<or> prevrawlensize nxt = 5"
    by (auto simp: ZIP_DECODE_PREVLEN_def ZIP_DECODE_PREVLENSIZE_def bind_eq_Some_conv
             split: if_splits)
  then have "curlen' - q' < curlen - q" using q' cl lt us
    by (auto simp: rls_def ZIP_BIGLEN_def split: if_splits)
  then show ?case by simp
qed

definition ziplistCascadeUpdate :: "blob \<Rightarrow> nat \<Rightarrow> blob option" where
  "ziplistCascadeUpdate zl q = do {
     curlen \<leftarrow> ZIPLIST_BYTES zl;
     cascade_loop zl q (unat curlen) }"

subsection \<open>Delete\<close>

text \<open>The counting loop of \<open>__ziplistDelete\<close>: the final \<open>p\<close> and \<open>deleted\<close>.\<close>

fun delete_skip :: "blob \<Rightarrow> nat \<Rightarrow> nat \<Rightarrow> nat \<Rightarrow> (nat \<times> nat) option" where
  "delete_skip zl q 0 deleted = do { _ \<leftarrow> rd zl q; Some (q, deleted) }"
| "delete_skip zl q (Suc n) deleted = do {
     b \<leftarrow> rd zl q;
     if b = ZIP_END then Some (q, deleted)
     else do { l \<leftarrow> zipRawEntryLength zl q; delete_skip zl (q + l) n (deleted + 1) } }"

definition ziplistDelete_raw :: "blob \<Rightarrow> nat \<Rightarrow> nat \<Rightarrow> blob option" where
  "ziplistDelete_raw zl q0 num = do {
     first \<leftarrow> zipEntry zl q0;
     (q, deleted) \<leftarrow> delete_skip zl q0 num 0;
     let totlen = q - p first;
     if totlen > 0 then do {
       b \<leftarrow> rd zl q;
       (zl1, nextdiff) \<leftarrow>
         (if b \<noteq> ZIP_END then do {
            nextdiff \<leftarrow> zipPrevLenByteDiff zl q (prevrawlen first);
            q1 \<leftarrow> padd q (- nextdiff);
            (zla, _) \<leftarrow> zipPrevEncodeLength zl (Some q1) (prevrawlen first);
            t \<leftarrow> ZIPLIST_TAIL_OFFSET zla;
            zlb \<leftarrow> set_ZIPLIST_TAIL_OFFSET zla (t - of_nat totlen);
            tail \<leftarrow> zipEntry zlb q1;
            b2 \<leftarrow> rd zlb (q1 + headersize tail + len tail);
            zlc \<leftarrow> (if b2 \<noteq> ZIP_END then do {
                      t2 \<leftarrow> ZIPLIST_TAIL_OFFSET zlb;
                      set_ZIPLIST_TAIL_OFFSET zlb (t2 + of_int nextdiff) }
                    else Some zlb);
            bytes \<leftarrow> ZIPLIST_BYTES zlc;
            n \<leftarrow> to_size (int (unat bytes) - int q1 - 1);
            zld \<leftarrow> memmove zlc (p first) q1 n;
            Some (zld, nextdiff) }
          else do {
            zla \<leftarrow> set_ZIPLIST_TAIL_OFFSET zl (of_nat (p first) - of_nat (prevrawlen first));
            Some (zla, 0) });
       let offset = p first;
       bytes \<leftarrow> ZIPLIST_BYTES zl1;
       zl2 \<leftarrow> ziplistResize zl1 (unat (bytes - of_nat totlen + of_int nextdiff));
       zl3 \<leftarrow> ZIPLIST_INCR_LENGTH zl2 (- int deleted);
       if nextdiff \<noteq> 0 then ziplistCascadeUpdate zl3 offset else Some zl3 }
     else Some zl }"

subsection \<open>Insert\<close>

text \<open>
  \<open>__ziplistInsert(zl, p, s, slen)\<close> with \<open>s\<close> the \<open>slen\<close> bytes of the payload. The host
  byte order \<open>be\<close> reaches \<open>zipSaveInteger\<close>.
\<close>

definition ziplistInsert_raw :: "bool \<Rightarrow> blob \<Rightarrow> nat \<Rightarrow> blob \<Rightarrow> blob option" where
  "ziplistInsert_raw be zl q s = do {
     curlenw \<leftarrow> ZIPLIST_BYTES zl;
     let curlen = unat curlenw;
     let slen = length s;
     b \<leftarrow> rd zl q;
     prevlen \<leftarrow>
       (if b \<noteq> ZIP_END then do {
          entry \<leftarrow> zipEntry zl q;
          (prevlensize, prevlen) \<leftarrow> ZIP_DECODE_PREVLEN zl q;
          Some prevlen }
        else do {
          t \<leftarrow> ZIPLIST_TAIL_OFFSET zl;
          bt \<leftarrow> rd zl (unat t);
          if bt \<noteq> ZIP_END then zipRawEntryLength zl (unat t) else Some 0 });
     let (val, encoding, reqlen0) =
       (case zipTryEncoding s of
          Some (v, e) \<Rightarrow> (v, e, zipIntSize e)
        | None \<Rightarrow> (123456789, 0, slen));
     (_, n1) \<leftarrow> zipPrevEncodeLength zl None prevlen;
     (_, n2) \<leftarrow> zipEncodeLength zl None encoding (of_nat slen);
     let reqlen = reqlen0 + n1 + n2;
     nextdiff \<leftarrow> (if b \<noteq> ZIP_END then zipPrevLenByteDiff zl q reqlen else Some 0);
     let offset = q;
     zl1 \<leftarrow> ziplistResize zl (to_uint (int curlen + int reqlen + nextdiff));
     b1 \<leftarrow> rd zl1 q;
     zl2 \<leftarrow>
       (if b1 \<noteq> ZIP_END then do {
          src \<leftarrow> padd q (- nextdiff);
          cnt \<leftarrow> to_size (int curlen - int offset - 1 + nextdiff);
          zla \<leftarrow> memmove zl1 (q + reqlen) src cnt;
          (zlb, _) \<leftarrow> zipPrevEncodeLength zla (Some (q + reqlen)) reqlen;
          t \<leftarrow> ZIPLIST_TAIL_OFFSET zlb;
          zlc \<leftarrow> set_ZIPLIST_TAIL_OFFSET zlb (t + of_nat reqlen);
          tail \<leftarrow> zipEntry zlc (q + reqlen);
          b2 \<leftarrow> rd zlc (q + reqlen + headersize tail + len tail);
          if b2 \<noteq> ZIP_END then do {
            t2 \<leftarrow> ZIPLIST_TAIL_OFFSET zlc;
            set_ZIPLIST_TAIL_OFFSET zlc (t2 + of_int nextdiff) }
          else Some zlc }
        else set_ZIPLIST_TAIL_OFFSET zl1 (of_nat q));
     zl3 \<leftarrow> (if nextdiff \<noteq> 0 then ziplistCascadeUpdate zl2 (q + reqlen) else Some zl2);
     (zl4, k1) \<leftarrow> zipPrevEncodeLength zl3 (Some q) prevlen;
     (zl5, k2) \<leftarrow> zipEncodeLength zl4 (Some (q + k1)) encoding (of_nat slen);
     zl6 \<leftarrow>
       (if ZIP_IS_STR encoding then memcpy zl5 (q + k1 + k2) s
        else do { bs \<leftarrow> zipSaveInteger be (of_int val) encoding; memcpy zl5 (q + k1 + k2) bs });
     ZIPLIST_INCR_LENGTH zl6 1 }"

subsection \<open>Public operations\<close>

datatype zl_where = ZIPLIST_HEAD | ZIPLIST_TAIL

definition ZIPLIST_ENTRY_HEAD :: nat where
  "ZIPLIST_ENTRY_HEAD = ZIPLIST_HEADER_SIZE"

definition ZIPLIST_ENTRY_END :: "blob \<Rightarrow> nat option" where
  "ZIPLIST_ENTRY_END zl = do { bytes \<leftarrow> ZIPLIST_BYTES zl; to_size (int (unat bytes) - 1) }"

definition ziplistPush :: "bool \<Rightarrow> blob \<Rightarrow> blob \<Rightarrow> zl_where \<Rightarrow> blob option" where
  "ziplistPush be zl s wh = do {
     q \<leftarrow> (case wh of ZIPLIST_HEAD \<Rightarrow> Some ZIPLIST_ENTRY_HEAD | ZIPLIST_TAIL \<Rightarrow> ZIPLIST_ENTRY_END zl);
     ziplistInsert_raw be zl q s }"

definition ziplistInsert :: "bool \<Rightarrow> blob \<Rightarrow> nat \<Rightarrow> blob \<Rightarrow> blob option" where
  "ziplistInsert be zl q s = ziplistInsert_raw be zl q s"

text \<open>\<open>ziplistDelete(zl, &p)\<close>: the new list and the updated \<open>*p\<close>.\<close>

definition ziplistDelete :: "blob \<Rightarrow> nat \<Rightarrow> (blob \<times> nat) option" where
  "ziplistDelete zl q = do { zl' \<leftarrow> ziplistDelete_raw zl q 1; Some (zl', q) }"

definition ziplistNext :: "blob \<Rightarrow> nat \<Rightarrow> nat option option" where
  "ziplistNext zl q = do {
     b \<leftarrow> rd zl q;
     if b = ZIP_END then Some None
     else do {
       l \<leftarrow> zipRawEntryLength zl q;
       b' \<leftarrow> rd zl (q + l);
       Some (if b' = ZIP_END then None else Some (q + l)) } }"

subsection \<open>The structural invariant of the spec\<close>

text \<open>
  The invariant of the packed list as the spec words it: the total-bytes field is the
  length of the blob, the entries follow one another from offset 10 up to the terminator
  in the last byte, the \<open>prevlen\<close> field of every entry holds the total length of its
  predecessor (0 for the first), and the tail-offset field is the offset of the last
  entry, or of the terminator when there is none. \<open>entries_from\<close> walks the entries and
  returns the offset of the last one; every entry has at least two bytes, so the length of
  the blob bounds the walk.
\<close>

fun entries_from :: "blob \<Rightarrow> nat \<Rightarrow> nat \<Rightarrow> nat \<Rightarrow> nat \<Rightarrow> nat option" where
  "entries_from zl 0 q prevlen lastq = None"
| "entries_from zl (Suc fuel) q prevlen lastq =
     (case rd zl q of
        None \<Rightarrow> None
      | Some b \<Rightarrow>
          if b = ZIP_END then (if Suc q = length zl then Some lastq else None)
          else (case zipEntry zl q of
                  None \<Rightarrow> None
                | Some e \<Rightarrow>
                    if prevrawlen e = prevlen
                    then entries_from zl fuel (q + headersize e + len e) (headersize e + len e) q
                    else None))"

definition ziplist_inv :: "blob \<Rightarrow> bool" where
  "ziplist_inv zl \<longleftrightarrow>
     map_option unat (ZIPLIST_BYTES zl) = Some (length zl) \<and>
     (case entries_from zl (length zl) ZIPLIST_ENTRY_HEAD 0 ZIPLIST_ENTRY_HEAD of
        None \<Rightarrow> False
      | Some t \<Rightarrow> map_option unat (ZIPLIST_TAIL_OFFSET zl) = Some t)"

subsection \<open>A list with entries around the 254-byte boundary\<close>

text \<open>
  Four pushes at the tail: \<open>A\<close> (8 payload bytes, 10 in all), \<open>B\<close> (297 payload bytes, 300
  in all), \<open>C\<close> (248 payload bytes; 255 in all, its \<open>prevlen\<close> field taking 5 bytes) and
  \<open>D\<close> (1 payload byte; 7 in all, its \<open>prevlen\<close> field taking 5 bytes). The lists after
  each push are \<open>blob_A\<close>, \<open>blob_AB\<close>, \<open>blob_ABC\<close> and \<open>blob_ABCD\<close>; \<open>blob_ACD\<close> is the list
  left by deleting \<open>B\<close>, and \<open>blob_ACD_stale\<close> is that list with the \<open>prevlen\<close> field of
  \<open>D\<close> still holding the former length 255 of \<open>C\<close>, as it is when the cascade starts.
\<close>

definition payloadA :: blob where "payloadA = replicate 8 0x61"
definition payloadB :: blob where "payloadB = replicate 297 0x62"
definition payloadC :: blob where "payloadC = replicate 248 0x63"
definition payloadD :: blob where "payloadD = [0x64]"

definition blob_A :: blob where
  "blob_A = [0x15, 0, 0, 0, 0x0a, 0, 0, 0, 1, 0] @ [0, 8] @ payloadA @ [0xff]"

definition blob_AB :: blob where
  "blob_AB =
     [0x41, 0x01, 0, 0, 0x14, 0, 0, 0, 2, 0]
     @ [0, 8] @ payloadA
     @ [10, 0x41, 0x29] @ payloadB
     @ [0xff]"

definition blob_ABC :: blob where
  "blob_ABC =
     [0x40, 0x02, 0, 0, 0x40, 0x01, 0, 0, 3, 0]
     @ [0, 8] @ payloadA
     @ [10, 0x41, 0x29] @ payloadB
     @ [0xfe, 0x2c, 0x01, 0, 0, 0x40, 0xf8] @ payloadC
     @ [0xff]"

definition blob_ABCD :: blob where
  "blob_ABCD =
     [0x47, 0x02, 0, 0, 0x3f, 0x02, 0, 0, 4, 0]
     @ [0, 8] @ payloadA
     @ [10, 0x41, 0x29] @ payloadB
     @ [0xfe, 0x2c, 0x01, 0, 0, 0x40, 0xf8] @ payloadC
     @ [0xfe, 0xff, 0, 0, 0, 1] @ payloadD
     @ [0xff]"

definition blob_ACD :: blob where
  "blob_ACD =
     [0x17, 0x01, 0, 0, 0x0f, 0x01, 0, 0, 3, 0]
     @ [0, 8] @ payloadA
     @ [10, 0x40, 0xf8] @ payloadC
     @ [0xfe, 0xfb, 0, 0, 0, 1] @ payloadD
     @ [0xff]"

definition blob_ACD_stale :: blob where
  "blob_ACD_stale =
     [0x17, 0x01, 0, 0, 0x0f, 0x01, 0, 0, 3, 0]
     @ [0, 8] @ payloadA
     @ [10, 0x40, 0xf8] @ payloadC
     @ [0xfe, 0xff, 0, 0, 0, 1] @ payloadD
     @ [0xff]"

text \<open>
  The blob \<open>zl\<close> with the four length bytes of the 5-byte \<open>prevlen\<close> field at offset \<open>r\<close>
  rewritten to \<open>n\<close>; the marker byte at \<open>r\<close> and every other byte are those of \<open>zl\<close>.
\<close>

definition put_prevlen5 :: "blob \<Rightarrow> nat \<Rightarrow> nat \<Rightarrow> blob" where
  "put_prevlen5 zl r n = take (r + 1) zl @ le_bytes 4 (of_nat n :: 32 word) @ drop (r + 5) zl"

section \<open>Scores: IEEE 754 doubles\<close>

text \<open>
  A \<open>double\<close> is a finite value, one of the two infinities, or NaN; the two zeros are not
  distinguished (they compare equal). Arithmetic on two finite values rounds the exact
  result; the rounding \<open>rnd\<close> is a parameter that yields a finite value or, on overflow,
  an infinity, never NaN. Every other case is fixed by IEEE 754.
\<close>

datatype double = Finite real | PInf | NInf | NaN

definition isnan :: "double \<Rightarrow> bool" where
  "isnan d \<longleftrightarrow> d = NaN"

fun dadd :: "(real \<Rightarrow> double) \<Rightarrow> double \<Rightarrow> double \<Rightarrow> double" where
  "dadd rnd NaN _ = NaN"
| "dadd rnd _ NaN = NaN"
| "dadd rnd PInf NInf = NaN"
| "dadd rnd NInf PInf = NaN"
| "dadd rnd PInf _ = PInf"
| "dadd rnd _ PInf = PInf"
| "dadd rnd NInf _ = NInf"
| "dadd rnd _ NInf = NInf"
| "dadd rnd (Finite x) (Finite y) = rnd (x + y)"

fun dmul :: "(real \<Rightarrow> double) \<Rightarrow> double \<Rightarrow> double \<Rightarrow> double" where
  "dmul rnd NaN _ = NaN"
| "dmul rnd _ NaN = NaN"
| "dmul rnd (Finite x) (Finite y) = rnd (x * y)"
| "dmul rnd (Finite x) PInf = (if x = 0 then NaN else if 0 < x then PInf else NInf)"
| "dmul rnd (Finite x) NInf = (if x = 0 then NaN else if 0 < x then NInf else PInf)"
| "dmul rnd PInf (Finite y) = (if y = 0 then NaN else if 0 < y then PInf else NInf)"
| "dmul rnd NInf (Finite y) = (if y = 0 then NaN else if 0 < y then NInf else PInf)"
| "dmul rnd PInf PInf = PInf"
| "dmul rnd PInf NInf = NInf"
| "dmul rnd NInf PInf = NInf"
| "dmul rnd NInf NInf = PInf"

text \<open>The comparisons \<open><\<close> and \<open>==\<close> of C: false whenever an operand is NaN.\<close>

fun dless :: "double \<Rightarrow> double \<Rightarrow> bool" where
  "dless NaN _ = False"
| "dless _ NaN = False"
| "dless (Finite x) (Finite y) = (x < y)"
| "dless (Finite x) PInf = True"
| "dless (Finite x) NInf = False"
| "dless PInf _ = False"
| "dless NInf NInf = False"
| "dless NInf _ = True"

definition deq :: "double \<Rightarrow> double \<Rightarrow> bool" where
  "deq a b \<longleftrightarrow> a \<noteq> NaN \<and> a = b"

definition dle :: "double \<Rightarrow> double \<Rightarrow> bool" where
  "dle a b \<longleftrightarrow> dless a b \<or> deq a b"

subsection \<open>Aggregation of scores in union and intersection\<close>

definition REDIS_AGGR_SUM :: int where "REDIS_AGGR_SUM = 1"
definition REDIS_AGGR_MIN :: int where "REDIS_AGGR_MIN = 2"
definition REDIS_AGGR_MAX :: int where "REDIS_AGGR_MAX = 3"

datatype panic = Panic

text \<open>\<open>zunionInterAggregate(target, val, aggregate)\<close>: the new value of \<open>*target\<close>.\<close>

definition zunionInterAggregate :: "(real \<Rightarrow> double) \<Rightarrow> double \<Rightarrow> double \<Rightarrow> int \<Rightarrow> panic + double" where
  "zunionInterAggregate rnd target val aggregate =
     (if aggregate = REDIS_AGGR_SUM then
        (let target' = dadd rnd target val in
         Inr (if isnan target' then Finite 0 else target'))
      else if aggregate = REDIS_AGGR_MIN then
        Inr (if dless val target then val else target)
      else if aggregate = REDIS_AGGR_MAX then
        Inr (if dless target val then val else target)
      else Inl Panic)"

text \<open>
  The weighted score handed to the aggregate in the intersection, for the second and
  later inputs: \<open>value = zval.score * src[j].weight\<close>.
\<close>

definition weighted_score :: "(real \<Rightarrow> double) \<Rightarrow> double \<Rightarrow> double \<Rightarrow> double" where
  "weighted_score rnd zscore weight = dmul rnd zscore weight"

text \<open>
  The score with which \<open>zunionInterGenericCommand\<close> starts an element, in the intersection for
  the first input and in the union for every input: \<open>score = src[i].weight * zval.score;
  if (isnan(score)) score = 0\<close>.
\<close>

definition initial_score :: "(real \<Rightarrow> double) \<Rightarrow> double \<Rightarrow> double \<Rightarrow> double" where
  "initial_score rnd weight zscore =
     (let score = dmul rnd weight zscore in if isnan score then Finite 0 else score)"

text \<open>
  The score that the intersection computes for an element found in every input: the
  element has the score \<open>zscore0\<close> in \<open>src[0]\<close>, whose weight is \<open>weight0\<close>, and \<open>js\<close> lists
  its score in \<open>src[j]\<close> with the weight of \<open>src[j]\<close>, for \<open>j\<close> from 1 on. Each step of the
  inner loop hands \<open>value * src[j].weight\<close> to \<open>zunionInterAggregate\<close> as it is.
\<close>

fun inter_rest :: "(real \<Rightarrow> double) \<Rightarrow> int \<Rightarrow> double \<Rightarrow> (double \<times> double) list \<Rightarrow> panic + double" where
  "inter_rest rnd aggregate score [] = Inr score"
| "inter_rest rnd aggregate score ((val, weight) # js) =
     (case zunionInterAggregate rnd score (weighted_score rnd val weight) aggregate of
        Inl e \<Rightarrow> Inl e
      | Inr score' \<Rightarrow> inter_rest rnd aggregate score' js)"

definition inter_score :: "(real \<Rightarrow> double) \<Rightarrow> int \<Rightarrow> double \<Rightarrow> double \<Rightarrow> (double \<times> double) list \<Rightarrow> panic + double" where
  "inter_score rnd aggregate zscore0 weight0 js =
     inter_rest rnd aggregate (initial_score rnd weight0 zscore0) js"

text \<open>
  The score that the union accumulates for the same element: the first input that holds it
  stores its initial score in the accumulator, every later one aggregates its own initial
  score, with the NaN test, into the stored value.
\<close>

fun union_rest :: "(real \<Rightarrow> double) \<Rightarrow> int \<Rightarrow> double \<Rightarrow> (double \<times> double) list \<Rightarrow> panic + double" where
  "union_rest rnd aggregate acc [] = Inr acc"
| "union_rest rnd aggregate acc ((val, weight) # js) =
     (case zunionInterAggregate rnd acc (initial_score rnd weight val) aggregate of
        Inl e \<Rightarrow> Inl e
      | Inr acc' \<Rightarrow> union_rest rnd aggregate acc' js)"

definition union_score :: "(real \<Rightarrow> double) \<Rightarrow> int \<Rightarrow> double \<Rightarrow> double \<Rightarrow> (double \<times> double) list \<Rightarrow> panic + double" where
  "union_score rnd aggregate zscore0 weight0 js =
     union_rest rnd aggregate (initial_score rnd weight0 zscore0) js"

section \<open>Skip list: level generator\<close>

text \<open>
  Modelled from the spec: \<open>ZSKIPLIST_MAXLEVEL\<close> and \<open>ZSKIPLIST_P\<close> of redis.h are not among
  the sources; the spec gives 32 and 1/4.
\<close>

definition ZSKIPLIST_MAXLEVEL :: nat where "ZSKIPLIST_MAXLEVEL = 32"
definition ZSKIPLIST_P :: real where "ZSKIPLIST_P = 1 / 4"

text \<open>
  The test of the loop of \<open>zslRandomLevel\<close> on one result \<open>r\<close> of \<open>random()\<close>:
  \<open>(r & 0xFFFF) < ZSKIPLIST_P * 0xFFFF\<close>, compared as doubles (both sides are exact).
\<close>

definition level_up :: "nat \<Rightarrow> bool" where
  "level_up r \<longleftrightarrow> real (r mod 65536) < ZSKIPLIST_P * 65535"

text \<open>
  The results of successive calls of \<open>random()\<close> are the stream \<open>draws\<close>, read from index
  \<open>i\<close>. The loop runs as long as the draws pass the test, so it is a partial function:
  \<open>None\<close> is the run that never leaves the loop. \<open>level\<close> is an \<open>int\<close> of 32 bits. The
  result carries the index of the next unread draw.
\<close>

partial_function (option) zslRandomLevel_loop :: "(nat \<Rightarrow> nat) \<Rightarrow> nat \<Rightarrow> 32 word \<Rightarrow> (32 word \<times> nat) option" where
  "zslRandomLevel_loop draws i lvl =
     (if level_up (draws i) then zslRandomLevel_loop draws (i + 1) (lvl + 1)
      else Some (lvl, i + 1))"

declare zslRandomLevel_loop.simps [code]

definition zslRandomLevel :: "(nat \<Rightarrow> nat) \<Rightarrow> nat \<Rightarrow> (int \<times> nat) option" where
  "zslRandomLevel draws i = do {
     (lvl, i') \<leftarrow> zslRandomLevel_loop draws i 1;
     Some (if sint lvl < int ZSKIPLIST_MAXLEVEL then sint lvl else int ZSKIPLIST_MAXLEVEL, i') }"

section \<open>Skip list\<close>

text \<open>
  Nodes live in a heap, a map from addresses to nodes with a bump allocator for \<open>zmalloc\<close>.
  A run ends in a \<open>fault\<close> when it dereferences \<open>NULL\<close> or a freed address, indexes the
  \<open>level[]\<close> array of a node outside its allocation, indexes the local arrays \<open>update[]\<close>
  and \<open>rank[]\<close> outside their \<open>ZSKIPLIST_MAXLEVEL\<close> entries or reads an entry never
  written, fails a \<open>redisAssert\<close>, or uses up the fuel that bounds each pointer-chasing
  loop (a loop that needs more fuel than any given amount does not terminate).
\<close>

datatype fault = BadPointer | LevelIndex | ArrayIndex | Uninitialised | AssertFailed | OutOfFuel

definition bindE :: "fault + 'a \<Rightarrow> ('a \<Rightarrow> fault + 'b) \<Rightarrow> fault + 'b" where
  "bindE m f = (case m of Inl e \<Rightarrow> Inl e | Inr x \<Rightarrow> f x)"

definition redisAssert :: "bool \<Rightarrow> fault + unit" where
  "redisAssert c = (if c then Inr () else Inl AssertFailed)"

type_synonym addr = nat

text \<open>
  A string object is its bytes; \<open>SharedMin\<close> and \<open>SharedMax\<close> are the objects
  \<open>shared.minstring\<close> and \<open>shared.maxstring\<close>, which the code tells apart by address.
\<close>

datatype robj = Str string | SharedMin | SharedMax

record zskiplistLevel =
  forward :: "addr option"
  span :: "32 word"

record zskiplistNode =
  score :: double
  obj :: "robj option"
  backward :: "addr option"
  level :: "zskiplistLevel list"

record zskiplist =
  header :: addr
  tail :: "addr option"
  zsl_length :: nat
  zsl_level :: int

record heap =
  cells :: "addr \<Rightarrow> zskiplistNode option"
  brk :: addr

definition zmalloc :: "heap \<Rightarrow> zskiplistNode \<Rightarrow> heap \<times> addr" where
  "zmalloc h n = (h\<lparr>cells := (cells h)(brk h \<mapsto> n), brk := brk h + 1\<rparr>, brk h)"

definition zfree :: "heap \<Rightarrow> addr \<Rightarrow> heap" where
  "zfree h a = h\<lparr>cells := (cells h)(a := None)\<rparr>"

definition deref :: "heap \<Rightarrow> addr \<Rightarrow> fault + zskiplistNode" where
  "deref h a = (case cells h a of None \<Rightarrow> Inl BadPointer | Some n \<Rightarrow> Inr n)"

definition store :: "heap \<Rightarrow> addr \<Rightarrow> zskiplistNode \<Rightarrow> heap" where
  "store h a n = h\<lparr>cells := (cells h)(a \<mapsto> n)\<rparr>"

definition lvl_get :: "zskiplistNode \<Rightarrow> nat \<Rightarrow> fault + zskiplistLevel" where
  "lvl_get n i = (if i < length (level n) then Inr (level n ! i) else Inl LevelIndex)"

definition lvl_set :: "zskiplistNode \<Rightarrow> nat \<Rightarrow> zskiplistLevel \<Rightarrow> fault + zskiplistNode" where
  "lvl_set n i l =
     (if i < length (level n) then Inr (n\<lparr>level := (level n)[i := l]\<rparr>) else Inl LevelIndex)"

text \<open>The local arrays \<open>update[ZSKIPLIST_MAXLEVEL]\<close> and \<open>rank[ZSKIPLIST_MAXLEVEL]\<close>.\<close>

definition update_new :: "addr option list" where
  "update_new = replicate ZSKIPLIST_MAXLEVEL None"

definition rank_new :: "32 word option list" where
  "rank_new = replicate ZSKIPLIST_MAXLEVEL None"

definition arr_get :: "'a option list \<Rightarrow> int \<Rightarrow> fault + 'a" where
  "arr_get xs i =
     (if 0 \<le> i \<and> i < int (length xs)
      then (case xs ! nat i of None \<Rightarrow> Inl Uninitialised | Some v \<Rightarrow> Inr v)
      else Inl ArrayIndex)"

definition arr_set :: "'a option list \<Rightarrow> int \<Rightarrow> 'a \<Rightarrow> fault + 'a option list" where
  "arr_set xs i v =
     (if 0 \<le> i \<and> i < int (length xs) then Inr (xs[nat i := Some v]) else Inl ArrayIndex)"

subsection \<open>Comparison of string objects\<close>

text \<open>
  Modelled from the spec: \<open>compareStringObjects\<close> and \<open>equalStringObjects\<close> of object.c are
  not among the sources. The spec's tie-break is "a byte-lexicographic comparison of the
  element payload": the difference of the first bytes that differ, else the difference of
  the lengths. The bytes of the two shared objects are the parameters \<open>smin\<close> and \<open>smax\<close>.
\<close>

fun memcmp_len :: "string \<Rightarrow> string \<Rightarrow> int" where
  "memcmp_len [] [] = 0"
| "memcmp_len [] (y # ys) = - int (length (y # ys))"
| "memcmp_len (x # xs) [] = int (length (x # xs))"
| "memcmp_len (x # xs) (y # ys) =
     (if x = y then memcmp_len xs ys else int (of_char x) - int (of_char y))"

fun bytes_of :: "string \<times> string \<Rightarrow> robj \<Rightarrow> string" where
  "bytes_of sh (Str s) = s"
| "bytes_of sh SharedMin = fst sh"
| "bytes_of sh SharedMax = snd sh"

definition compareStringObjects :: "string \<times> string \<Rightarrow> robj \<Rightarrow> robj \<Rightarrow> int" where
  "compareStringObjects sh a b = memcmp_len (bytes_of sh a) (bytes_of sh b)"

definition equalStringObjects :: "string \<times> string \<Rightarrow> robj \<Rightarrow> robj \<Rightarrow> bool" where
  "equalStringObjects sh a b \<longleftrightarrow> compareStringObjects sh a b = 0"

definition nonnull :: "'a option \<Rightarrow> fault + 'a" where
  "nonnull x = (case x of None \<Rightarrow> Inl BadPointer | Some v \<Rightarrow> Inr v)"

subsection \<open>Creation\<close>

definition zslCreateNode :: "heap \<Rightarrow> nat \<Rightarrow> double \<Rightarrow> robj option \<Rightarrow> heap \<times> addr" where
  "zslCreateNode h lvl sc ob =
     zmalloc h \<lparr>score = sc, obj = ob, backward = None,
                level = replicate lvl \<lparr>forward = None, span = 0\<rparr>\<rparr>"

definition zslCreate :: "heap \<Rightarrow> heap \<times> zskiplist" where
  "zslCreate h =
     (let (h', hd) = zslCreateNode h ZSKIPLIST_MAXLEVEL (Finite 0) None
      in (h', \<lparr>header = hd, tail = None, zsl_length = 0, zsl_level = 1\<rparr>))"

subsection \<open>Insertion\<close>

text \<open>
  The inner loop of the search of \<open>zslInsert\<close> at level \<open>i\<close>, from node \<open>x\<close> with
  \<open>rank[i] = r\<close>: the node and the rank it stops with.
\<close>

fun insert_walk :: "nat \<Rightarrow> string \<times> string \<Rightarrow> heap \<Rightarrow> addr \<Rightarrow> nat \<Rightarrow> double \<Rightarrow> robj
    \<Rightarrow> 32 word \<Rightarrow> fault + (addr \<times> 32 word)" where
  "insert_walk 0 sh h x i sc ob r = Inl OutOfFuel"
| "insert_walk (Suc fuel) sh h x i sc ob r =
     bindE (deref h x) (\<lambda>xn.
     bindE (lvl_get xn i) (\<lambda>l.
       case forward l of
         None \<Rightarrow> Inr (x, r)
       | Some f \<Rightarrow>
           bindE (deref h f) (\<lambda>fn.
             if dless (score fn) sc then insert_walk fuel sh h f i sc ob (r + span l)
             else if deq (score fn) sc then
               bindE (nonnull (obj fn)) (\<lambda>fo.
                 if compareStringObjects sh fo ob < 0
                 then insert_walk fuel sh h f i sc ob (r + span l)
                 else Inr (x, r))
             else Inr (x, r))))"

text \<open>The outer loop of the search, \<open>for (i = zsl->level-1; i >= 0; i--)\<close>, with \<open>n = i + 1\<close>.\<close>

fun insert_search :: "nat \<Rightarrow> string \<times> string \<Rightarrow> heap \<Rightarrow> zskiplist \<Rightarrow> double \<Rightarrow> robj \<Rightarrow> nat \<Rightarrow> addr
    \<Rightarrow> addr option list \<Rightarrow> 32 word option list
    \<Rightarrow> fault + (addr option list \<times> 32 word option list)" where
  "insert_search fuel sh h zsl sc ob 0 x update rank = Inr (update, rank)"
| "insert_search fuel sh h zsl sc ob (Suc i) x update rank =
     bindE (if int i = zsl_level zsl - 1 then Inr 0 else arr_get rank (int i + 1)) (\<lambda>r0.
     bindE (arr_set rank (int i) r0) (\<lambda>rank1.
     bindE (insert_walk fuel sh h x i sc ob r0) (\<lambda>(x', r).
     bindE (arr_set rank1 (int i) r) (\<lambda>rank2.
     bindE (arr_set update (int i) x') (\<lambda>update1.
       insert_search fuel sh h zsl sc ob i x' update1 rank2)))))"

text \<open>
  \<open>for (i = zsl->level; i < level; i++)\<close> of the branch \<open>level > zsl->level\<close>, running
  over the \<open>n\<close> indices from \<open>i\<close> on.
\<close>

fun insert_raise :: "heap \<Rightarrow> zskiplist \<Rightarrow> int \<Rightarrow> nat \<Rightarrow> addr option list \<Rightarrow> 32 word option list
    \<Rightarrow> fault + (heap \<times> addr option list \<times> 32 word option list)" where
  "insert_raise h zsl i 0 update rank = Inr (h, update, rank)"
| "insert_raise h zsl i (Suc n) update rank =
     bindE (arr_set rank i 0) (\<lambda>rank1.
     bindE (arr_set update i (header zsl)) (\<lambda>update1.
     bindE (arr_get update1 i) (\<lambda>u.
     bindE (deref h u) (\<lambda>un.
     bindE (lvl_get un (nat i)) (\<lambda>l.
     bindE (lvl_set un (nat i) (l\<lparr>span := of_nat (zsl_length zsl)\<rparr>)) (\<lambda>un'.
       insert_raise (store h u un') zsl (i + 1) n update1 rank1))))))"

text \<open>\<open>for (i = 0; i < level; i++)\<close>: the splice of the new node \<open>x\<close>, over \<open>n\<close> indices from \<open>i\<close>.\<close>

fun insert_splice :: "heap \<Rightarrow> addr \<Rightarrow> int \<Rightarrow> nat \<Rightarrow> addr option list \<Rightarrow> 32 word option list
    \<Rightarrow> fault + heap" where
  "insert_splice h x i 0 update rank = Inr h"
| "insert_splice h x i (Suc n) update rank =
     bindE (arr_get update i) (\<lambda>u.
     bindE (deref h u) (\<lambda>un.
     bindE (lvl_get un (nat i)) (\<lambda>ul.
     bindE (deref h x) (\<lambda>xn.
     bindE (lvl_get xn (nat i)) (\<lambda>xl.
     bindE (lvl_set xn (nat i) (xl\<lparr>forward := forward ul\<rparr>)) (\<lambda>xn1.
     let h1 = store h x xn1 in
     bindE (deref h1 u) (\<lambda>un1.
     bindE (lvl_get un1 (nat i)) (\<lambda>ul1.
     bindE (lvl_set un1 (nat i) (ul1\<lparr>forward := Some x\<rparr>)) (\<lambda>un2.
     let h2 = store h1 u un2 in
     bindE (arr_get rank 0) (\<lambda>r0.
     bindE (arr_get rank i) (\<lambda>ri.
     bindE (deref h2 u) (\<lambda>un3.
     bindE (lvl_get un3 (nat i)) (\<lambda>ul3.
     bindE (deref h2 x) (\<lambda>xn3.
     bindE (lvl_get xn3 (nat i)) (\<lambda>xl3.
     bindE (lvl_set xn3 (nat i) (xl3\<lparr>span := span ul3 - (r0 - ri)\<rparr>)) (\<lambda>xn4.
     let h3 = store h2 x xn4 in
     bindE (deref h3 u) (\<lambda>un4.
     bindE (lvl_get un4 (nat i)) (\<lambda>ul4.
     bindE (lvl_set un4 (nat i) (ul4\<lparr>span := (r0 - ri) + 1\<rparr>)) (\<lambda>un5.
       insert_splice (store h3 u un5) x (i + 1) n update rank)))))))))))))))))))"

text \<open>\<open>for (i = level; i < zsl->level; i++) update[i]->level[i].span++\<close>, over \<open>n\<close> indices.\<close>

fun insert_bump :: "heap \<Rightarrow> int \<Rightarrow> nat \<Rightarrow> addr option list \<Rightarrow> fault + heap" where
  "insert_bump h i 0 update = Inr h"
| "insert_bump h i (Suc n) update =
     bindE (arr_get update i) (\<lambda>u.
     bindE (deref h u) (\<lambda>un.
     bindE (lvl_get un (nat i)) (\<lambda>l.
     bindE (lvl_set un (nat i) (l\<lparr>span := span l + 1\<rparr>)) (\<lambda>un'.
       insert_bump (store h u un') (i + 1) n update))))"

text \<open>
  \<open>zslInsert\<close>. The random level comes from the draws \<open>draws\<close> read from index \<open>di\<close>; a
  generator that never returns is a loop without end, \<open>OutOfFuel\<close>. The result is the heap,
  the list, the new node and the index of the next unread draw.
\<close>

definition zslInsert :: "nat \<Rightarrow> string \<times> string \<Rightarrow> (nat \<Rightarrow> nat) \<Rightarrow> nat \<Rightarrow> heap \<Rightarrow> zskiplist \<Rightarrow> double \<Rightarrow> robj
    \<Rightarrow> fault + (heap \<times> zskiplist \<times> addr \<times> nat)" where
  "zslInsert fuel sh draws di h zsl sc ob =
     bindE (redisAssert (\<not> isnan sc)) (\<lambda>_.
     bindE (insert_search fuel sh h zsl sc ob (nat (zsl_level zsl)) (header zsl) update_new rank_new)
       (\<lambda>(update, rank).
     bindE (case zslRandomLevel draws di of None \<Rightarrow> Inl OutOfFuel | Some r \<Rightarrow> Inr r)
       (\<lambda>(lvl, di').
     bindE (if lvl > zsl_level zsl
            then bindE (insert_raise h zsl (zsl_level zsl) (nat (lvl - zsl_level zsl)) update rank)
                   (\<lambda>(h1, update1, rank1). Inr (h1, update1, rank1, zsl\<lparr>zsl_level := lvl\<rparr>))
            else Inr (h, update, rank, zsl))
       (\<lambda>(h1, update1, rank1, zsl1).
     let (h2, x) = zslCreateNode h1 (nat lvl) sc (Some ob) in
     bindE (insert_splice h2 x 0 (nat lvl) update1 rank1) (\<lambda>h3.
     bindE (insert_bump h3 lvl (nat (zsl_level zsl1 - lvl)) update1) (\<lambda>h4.
     bindE (arr_get update1 0) (\<lambda>u0.
     bindE (deref h4 x) (\<lambda>xn.
     let h5 = store h4 x (xn\<lparr>backward := (if u0 = header zsl1 then None else Some u0)\<rparr>) in
     bindE (deref h5 x) (\<lambda>xn1.
     bindE (lvl_get xn1 0) (\<lambda>xl.
     bindE (case forward xl of
              Some f \<Rightarrow> bindE (deref h5 f) (\<lambda>fn.
                          Inr (store h5 f (fn\<lparr>backward := Some x\<rparr>), zsl1))
            | None \<Rightarrow> Inr (h5, zsl1\<lparr>tail := Some x\<rparr>))
       (\<lambda>(h6, zsl2).
       Inr (h6, zsl2\<lparr>zsl_length := zsl_length zsl2 + 1\<rparr>, x, di'))))))))))))"

subsection \<open>Deletion\<close>

text \<open>\<open>for (i = 0; i < zsl->level; i++)\<close> of \<open>zslDeleteNode\<close>, over \<open>n\<close> indices from \<open>i\<close>.\<close>

fun delete_unlink :: "heap \<Rightarrow> addr \<Rightarrow> int \<Rightarrow> nat \<Rightarrow> addr option list \<Rightarrow> fault + heap" where
  "delete_unlink h x i 0 update = Inr h"
| "delete_unlink h x i (Suc n) update =
     bindE (arr_get update i) (\<lambda>u.
     bindE (deref h u) (\<lambda>un.
     bindE (lvl_get un (nat i)) (\<lambda>ul.
       if forward ul = Some x then
         bindE (deref h x) (\<lambda>xn.
         bindE (lvl_get xn (nat i)) (\<lambda>xl.
         bindE (lvl_set un (nat i) (ul\<lparr>span := span ul + (span xl - 1)\<rparr>)) (\<lambda>un1.
         let h1 = store h u un1 in
         bindE (deref h1 u) (\<lambda>un2.
         bindE (lvl_get un2 (nat i)) (\<lambda>ul2.
         bindE (deref h1 x) (\<lambda>xn2.
         bindE (lvl_get xn2 (nat i)) (\<lambda>xl2.
         bindE (lvl_set un2 (nat i) (ul2\<lparr>forward := forward xl2\<rparr>)) (\<lambda>un3.
           delete_unlink (store h1 u un3) x (i + 1) n update))))))))
       else
         bindE (lvl_set un (nat i) (ul\<lparr>span := span ul - 1\<rparr>)) (\<lambda>un1.
           delete_unlink (store h u un1) x (i + 1) n update))))"

text \<open>
  \<open>while (zsl->level > 1 && zsl->header->level[zsl->level-1].forward == NULL) zsl->level--\<close>;
  the level decreases at each turn, so the loop is bounded by its initial value.
\<close>

function delete_lower :: "heap \<Rightarrow> zskiplist \<Rightarrow> fault + zskiplist" where
  "delete_lower h zsl =
     (if zsl_level zsl > 1 then
        bindE (deref h (header zsl)) (\<lambda>hn.
        bindE (lvl_get hn (nat (zsl_level zsl - 1))) (\<lambda>l.
          if forward l = None then delete_lower h (zsl\<lparr>zsl_level := zsl_level zsl - 1\<rparr>)
          else Inr zsl))
      else Inr zsl)"
  by pat_completeness auto
termination
  by (relation "measure (\<lambda>(h, zsl). nat (zsl_level zsl))") (auto simp: bindE_def split: sum.splits)

definition zslDeleteNode :: "heap \<Rightarrow> zskiplist \<Rightarrow> addr \<Rightarrow> addr option list \<Rightarrow> fault + (heap \<times> zskiplist)" where
  "zslDeleteNode h zsl x update =
     bindE (delete_unlink h x 0 (nat (zsl_level zsl)) update) (\<lambda>h1.
     bindE (deref h1 x) (\<lambda>xn.
     bindE (lvl_get xn 0) (\<lambda>xl.
     bindE (case forward xl of
              Some f \<Rightarrow> bindE (deref h1 f) (\<lambda>fn.
                          Inr (store h1 f (fn\<lparr>backward := backward xn\<rparr>), zsl))
            | None \<Rightarrow> Inr (h1, zsl\<lparr>tail := backward xn\<rparr>))
       (\<lambda>(h2, zsl1).
     bindE (delete_lower h2 zsl1) (\<lambda>zsl2.
       Inr (h2, zsl2\<lparr>zsl_length := zsl_length zsl2 - 1\<rparr>))))))"

text \<open>The search of \<open>zslDelete\<close>: inner loop at level \<open>i\<close> and outer loop with \<open>n = i + 1\<close>.\<close>

fun delete_walk :: "nat \<Rightarrow> string \<times> string \<Rightarrow> heap \<Rightarrow> addr \<Rightarrow> nat \<Rightarrow> double \<Rightarrow> robj \<Rightarrow> fault + addr" where
  "delete_walk 0 sh h x i sc ob = Inl OutOfFuel"
| "delete_walk (Suc fuel) sh h x i sc ob =
     bindE (deref h x) (\<lambda>xn.
     bindE (lvl_get xn i) (\<lambda>l.
       case forward l of
         None \<Rightarrow> Inr x
       | Some f \<Rightarrow>
           bindE (deref h f) (\<lambda>fn.
             if dless (score fn) sc then delete_walk fuel sh h f i sc ob
             else if deq (score fn) sc then
               bindE (nonnull (obj fn)) (\<lambda>fo.
                 if compareStringObjects sh fo ob < 0 then delete_walk fuel sh h f i sc ob
                 else Inr x)
             else Inr x)))"

fun delete_search :: "nat \<Rightarrow> string \<times> string \<Rightarrow> heap \<Rightarrow> double \<Rightarrow> robj \<Rightarrow> nat \<Rightarrow> addr \<Rightarrow> addr option list
    \<Rightarrow> fault + (addr \<times> addr option list)" where
  "delete_search fuel sh h sc ob 0 x update = Inr (x, update)"
| "delete_search fuel sh h sc ob (Suc i) x update =
     bindE (delete_walk fuel sh h x i sc ob) (\<lambda>x'.
     bindE (arr_set update (int i) x') (\<lambda>update1.
       delete_search fuel sh h sc ob i x' update1))"

text \<open>\<open>zslFreeNode\<close>; the reference count of the object is not modelled.\<close>

definition zslFreeNode :: "heap \<Rightarrow> addr \<Rightarrow> heap" where
  "zslFreeNode h x = zfree h x"

text \<open>\<open>zslDelete\<close>: the heap, the list and the value returned (1 or 0).\<close>

definition zslDelete :: "nat \<Rightarrow> string \<times> string \<Rightarrow> heap \<Rightarrow> zskiplist \<Rightarrow> double \<Rightarrow> robj
    \<Rightarrow> fault + (heap \<times> zskiplist \<times> int)" where
  "zslDelete fuel sh h zsl sc ob =
     bindE (delete_search fuel sh h sc ob (nat (zsl_level zsl)) (header zsl) update_new)
       (\<lambda>(x, update).
     bindE (deref h x) (\<lambda>xn.
     bindE (lvl_get xn 0) (\<lambda>xl.
       case forward xl of
         None \<Rightarrow> Inr (h, zsl, 0)
       | Some y \<Rightarrow>
           bindE (deref h y) (\<lambda>yn.
             if deq sc (score yn) then
               bindE (nonnull (obj yn)) (\<lambda>yo.
                 if equalStringObjects sh yo ob then
                   bindE (zslDeleteNode h zsl y update) (\<lambda>(h1, zsl1).
                     Inr (zslFreeNode h1 y, zsl1, 1))
                 else Inr (h, zsl, 0))
             else Inr (h, zsl, 0)))))"

subsection \<open>Rank\<close>




fun byrank_walk :: "nat \<Rightarrow> heap \<Rightarrow> addr \<Rightarrow> nat \<Rightarrow> 64 word \<Rightarrow> 64 word \<Rightarrow> fault + (addr \<times> 64 word)" where
  "byrank_walk 0 h x i traversed rank = Inl OutOfFuel"
| "byrank_walk (Suc fuel) h x i traversed rank =
     bindE (deref h x) (\<lambda>xn.
     bindE (lvl_get xn i) (\<lambda>l.
       case forward l of
         None \<Rightarrow> Inr (x, traversed)
       | Some f \<Rightarrow>
           if traversed + ucast (span l) \<le> rank
           then byrank_walk fuel h f i (traversed + ucast (span l)) rank
           else Inr (x, traversed)))"

fun byrank_levels :: "nat \<Rightarrow> heap \<Rightarrow> nat \<Rightarrow> addr \<Rightarrow> 64 word \<Rightarrow> 64 word \<Rightarrow> fault + addr option" where
  "byrank_levels fuel h 0 x traversed rank = Inr None"
| "byrank_levels fuel h (Suc i) x traversed rank =
     bindE (byrank_walk fuel h x i traversed rank) (\<lambda>(x', t').
       if t' = rank then Inr (Some x') else byrank_levels fuel h i x' t' rank)"

definition zslGetElementByRank :: "nat \<Rightarrow> heap \<Rightarrow> zskiplist \<Rightarrow> 64 word \<Rightarrow> fault + addr option" where
  "zslGetElementByRank fuel h zsl rank =
     byrank_levels fuel h (nat (zsl_level zsl)) (header zsl) 0 rank"

subsection \<open>Lexicographic ranges\<close>

record zlexrangespec =
  lex_min :: robj
  lex_max :: robj
  minex :: bool
  maxex :: bool

definition compareStringObjectsForLexRange :: "string \<times> string \<Rightarrow> robj \<Rightarrow> robj \<Rightarrow> int" where
  "compareStringObjectsForLexRange sh a b =
     (if a = b then 0
      else if a = SharedMin \<or> b = SharedMax then - 1
      else if a = SharedMax \<or> b = SharedMin then 1
      else compareStringObjects sh a b)"

definition zslLexValueGteMin :: "string \<times> string \<Rightarrow> robj \<Rightarrow> zlexrangespec \<Rightarrow> bool" where
  "zslLexValueGteMin sh v spec =
     (if minex spec then compareStringObjectsForLexRange sh v (lex_min spec) > 0
      else compareStringObjectsForLexRange sh v (lex_min spec) \<ge> 0)"

definition zslLexValueLteMax :: "string \<times> string \<Rightarrow> robj \<Rightarrow> zlexrangespec \<Rightarrow> bool" where
  "zslLexValueLteMax sh v spec =
     (if maxex spec then compareStringObjectsForLexRange sh v (lex_max spec) < 0
      else compareStringObjectsForLexRange sh v (lex_max spec) \<le> 0)"

definition zslIsInLexRange :: "string \<times> string \<Rightarrow> heap \<Rightarrow> zskiplist \<Rightarrow> zlexrangespec \<Rightarrow> fault + bool" where
  "zslIsInLexRange sh h zsl spec =
     (if compareStringObjectsForLexRange sh (lex_min spec) (lex_max spec) > 1 \<or>
         (compareStringObjects sh (lex_min spec) (lex_max spec) = 0 \<and>
          (minex spec \<or> maxex spec))
      then Inr False
      else
        case tail zsl of
          None \<Rightarrow> Inr False
        | Some t \<Rightarrow>
            bindE (deref h t) (\<lambda>tn.
            bindE (nonnull (obj tn)) (\<lambda>tobj.
              if \<not> zslLexValueGteMin sh tobj spec then Inr False
              else
                bindE (deref h (header zsl)) (\<lambda>hn.
                bindE (lvl_get hn 0) (\<lambda>l.
                  case forward l of
                    None \<Rightarrow> Inr False
                  | Some f \<Rightarrow>
                      bindE (deref h f) (\<lambda>fn.
                      bindE (nonnull (obj fn)) (\<lambda>fobj.
                        Inr (zslLexValueLteMax sh fobj spec))))))))"

fun firstlex_walk :: "nat \<Rightarrow> string \<times> string \<Rightarrow> heap \<Rightarrow> addr \<Rightarrow> nat \<Rightarrow> zlexrangespec \<Rightarrow> fault + addr" where
  "firstlex_walk 0 sh h x i spec = Inl OutOfFuel"
| "firstlex_walk (Suc fuel) sh h x i spec =
     bindE (deref h x) (\<lambda>xn.
     bindE (lvl_get xn i) (\<lambda>l.
       case forward l of
         None \<Rightarrow> Inr x
       | Some f \<Rightarrow>
           bindE (deref h f) (\<lambda>fn.
           bindE (nonnull (obj fn)) (\<lambda>fobj.
             if \<not> zslLexValueGteMin sh fobj spec then firstlex_walk fuel sh h f i spec
             else Inr x))))"

fun firstlex_levels :: "nat \<Rightarrow> string \<times> string \<Rightarrow> heap \<Rightarrow> nat \<Rightarrow> addr \<Rightarrow> zlexrangespec \<Rightarrow> fault + addr" where
  "firstlex_levels fuel sh h 0 x spec = Inr x"
| "firstlex_levels fuel sh h (Suc i) x spec =
     bindE (firstlex_walk fuel sh h x i spec) (\<lambda>x'. firstlex_levels fuel sh h i x' spec)"

text \<open>\<open>zslFirstInLexRange\<close>: the node found, \<open>None\<close> for \<open>NULL\<close>.\<close>

definition zslFirstInLexRange :: "nat \<Rightarrow> string \<times> string \<Rightarrow> heap \<Rightarrow> zskiplist \<Rightarrow> zlexrangespec
    \<Rightarrow> fault + addr option" where
  "zslFirstInLexRange fuel sh h zsl spec =
     bindE (zslIsInLexRange sh h zsl spec) (\<lambda>inr.
       if \<not> inr then Inr None
       else
         bindE (firstlex_levels fuel sh h (nat (zsl_level zsl)) (header zsl) spec) (\<lambda>x.
         bindE (deref h x) (\<lambda>xn.
         bindE (lvl_get xn 0) (\<lambda>l.
         bindE (redisAssert (forward l \<noteq> None)) (\<lambda>_.
         bindE (nonnull (forward l)) (\<lambda>y.
         bindE (deref h y) (\<lambda>yn.
         bindE (nonnull (obj yn)) (\<lambda>yobj.
           if \<not> zslLexValueLteMax sh yobj spec then Inr None else Inr (Some y)))))))))"

text \<open>
  The element of a node, and the elements of the list in level-0 order (at most \<open>fuel\<close>
  of them): what a caller sees by following \<open>level[0].forward\<close> from the header.
\<close>

fun chain0 :: "nat \<Rightarrow> heap \<Rightarrow> addr option \<Rightarrow> addr list" where
  "chain0 0 h x = []"
| "chain0 (Suc fuel) h None = []"
| "chain0 (Suc fuel) h (Some a) =
     (case cells h a of
        None \<Rightarrow> []
      | Some n \<Rightarrow> a # chain0 fuel h (case level n of [] \<Rightarrow> None | l # _ \<Rightarrow> forward l))"

definition zsl_nodes :: "heap \<Rightarrow> zskiplist \<Rightarrow> addr list" where
  "zsl_nodes h zsl = tl (chain0 (Suc (zsl_length zsl)) h (Some (header zsl)))"

definition zsl_pairs :: "heap \<Rightarrow> zskiplist \<Rightarrow> (robj option \<times> double) list" where
  "zsl_pairs h zsl =
     map (\<lambda>a. case cells h a of None \<Rightarrow> (None, NaN) | Some n \<Rightarrow> (obj n, score n)) (zsl_nodes h zsl)"

subsection \<open>A list of one element\<close>

text \<open>
  The bytes of \<open>shared.minstring\<close> and \<open>shared.maxstring\<close> are set in redis.c, which is not
  among the sources; the examples take the strings \<open>minstring\<close> and \<open>maxstring\<close>. The draws
  \<open>draws_level1\<close> fail the test of \<open>zslRandomLevel\<close> at once, so every node has one level.
  \<open>single_list sc ob\<close> is \<open>zslCreate\<close> followed by \<open>zslInsert\<close> of \<open>ob\<close> with the score \<open>sc\<close>.
\<close>

definition sh0 :: "string \<times> string" where
  "sh0 = (''minstring'', ''maxstring'')"

definition heap_empty :: heap where
  "heap_empty = \<lparr>cells = (\<lambda>_. None), brk = 0\<rparr>"

definition draws_level1 :: "nat \<Rightarrow> nat" where
  "draws_level1 = (\<lambda>_. 65535)"

definition single_list :: "double \<Rightarrow> robj \<Rightarrow> fault + (heap \<times> zskiplist \<times> addr \<times> nat)" where
  "single_list sc ob =
     (let (h, zsl) = zslCreate heap_empty in zslInsert 4 sh0 draws_level1 0 h zsl sc ob)"

text \<open>The range \<open>(maxstring, +\<infinity>)\<close>: above the string \<open>s\<close>, exclusive, with no upper bound.\<close>

definition lex_above :: "string \<Rightarrow> zlexrangespec" where
  "lex_above s = \<lparr>lex_min = Str s, lex_max = SharedMax, minex = True, maxex = False\<rparr>"

text \<open>The number of entries of the \<open>level[]\<close> array of the node at each address.\<close>

definition nlevels :: "heap \<Rightarrow> addr \<Rightarrow> nat option" where
  "nlevels h a = map_option (\<lambda>n. length (level n)) (cells h a)"

text \<open>
  A run is index-safe with the postcondition \<open>P\<close> when it does not end in an access outside
  \<open>update[]\<close> or \<open>rank[]\<close> and its result, if it has one, satisfies \<open>P\<close>.
\<close>

definition index_safe :: "('a \<Rightarrow> bool) \<Rightarrow> fault + 'a \<Rightarrow> bool" where
  "index_safe P m \<longleftrightarrow> m \<noteq> Inl ArrayIndex \<and> (\<forall>y. m = Inr y \<longrightarrow> P y)"

text \<open>
  Two more streams of draws: one whose draws all pass the test of \<open>zslRandomLevel\<close>, and
  one whose first two draws pass it and whose third fails it.
\<close>

definition draws_pass :: "nat \<Rightarrow> nat" where
  "draws_pass = (\<lambda>_. 0)"

definition draws_level3 :: "nat \<Rightarrow> nat" where
  "draws_level3 = (\<lambda>j. if j < 2 then 0 else 65535)"

section \<open>Hash table\<close>

text \<open>
  A bucket is the chain of its entries, head first; a table is the list of its buckets
  (\<open>table = NULL\<close> is the empty list). Keys and values are of any type; the callbacks of
  the type descriptor that the insertion uses are the fields of \<open>dictType\<close>. A read
  outside a table or a failed \<open>assert\<close> is \<open>None\<close>.
\<close>

record ('k, 'v) dictEntry =
  key :: 'k
  v_val :: "'v option"

record ('k, 'v) dictht =
  table :: "('k, 'v) dictEntry list list"
  ht_size :: nat
  sizemask :: nat
  used :: nat

record ('k, 'v) dictType =
  hashFunction :: "'k \<Rightarrow> 32 word"
  keyDup :: "('k \<Rightarrow> 'k) option"
  valDup :: "('v \<Rightarrow> 'v) option"
  keyCompare :: "('k \<Rightarrow> 'k \<Rightarrow> bool) option"

record ('k, 'v) dict =
  dtype :: "('k, 'v) dictType"
  ht0 :: "('k, 'v) dictht"
  ht1 :: "('k, 'v) dictht"
  rehashidx :: int
  iterators :: int

datatype dict_status = DICT_OK | DICT_ERR

definition DICT_HT_INITIAL_SIZE :: nat where "DICT_HT_INITIAL_SIZE = 4"
definition dict_force_resize_ratio :: nat where "dict_force_resize_ratio = 5"
definition LONG_MAX :: int where "LONG_MAX = 2 ^ 63 - 1"

definition dictCompareKeys :: "('k, 'v) dict \<Rightarrow> 'k \<Rightarrow> 'k \<Rightarrow> bool" where
  "dictCompareKeys d key1 key2 =
     (case keyCompare (dtype d) of Some f \<Rightarrow> f key1 key2 | None \<Rightarrow> key1 = key2)"

definition dictHashKey :: "('k, 'v) dict \<Rightarrow> 'k \<Rightarrow> 32 word" where
  "dictHashKey d k = hashFunction (dtype d) k"

definition dictIsRehashing :: "('k, 'v) dict \<Rightarrow> bool" where
  "dictIsRehashing d \<longleftrightarrow> rehashidx d \<noteq> - 1"

definition dictReset :: "('k, 'v) dictht" where
  "dictReset = \<lparr>table = [], ht_size = 0, sizemask = 0, used = 0\<rparr>"

definition dictCreate :: "('k, 'v) dictType \<Rightarrow> ('k, 'v) dict" where
  "dictCreate ty = \<lparr>dtype = ty, ht0 = dictReset, ht1 = dictReset, rehashidx = - 1, iterators = 0\<rparr>"

text \<open>
  \<open>_dictNextPower\<close>: the loop doubles \<open>i\<close>, which starts at 4, until it reaches \<open>size\<close>;
  below \<open>LONG_MAX\<close> the doubling does not overflow an \<open>unsigned long\<close>.
\<close>

function dictNextPower_loop :: "nat \<Rightarrow> nat \<Rightarrow> nat" where
  "dictNextPower_loop i sz = (if i \<ge> sz \<or> i = 0 then i else dictNextPower_loop (i * 2) sz)"
  by pat_completeness auto
termination
  by (relation "measure (\<lambda>(i, sz). sz - i)") auto

definition dictNextPower :: "nat \<Rightarrow> nat" where
  "dictNextPower sz =
     (if int sz \<ge> LONG_MAX then nat LONG_MAX else dictNextPower_loop DICT_HT_INITIAL_SIZE sz)"

definition dictExpand :: "('k, 'v) dict \<Rightarrow> nat \<Rightarrow> ('k, 'v) dict \<times> dict_status" where
  "dictExpand d sz =
     (let realsize = dictNextPower sz in
      if dictIsRehashing d \<or> used (ht0 d) > sz then (d, DICT_ERR)
      else
        (let n = \<lparr>table = replicate realsize [], ht_size = realsize, sizemask = realsize - 1,
                   used = 0\<rparr>
         in if ht_size (ht0 d) = 0 \<and> table (ht0 d) = [] then (d\<lparr>ht0 := n\<rparr>, DICT_OK)
            else (d\<lparr>ht1 := n, rehashidx := 0\<rparr>, DICT_OK)))"

text \<open>
  \<open>while (d->ht[0].table[d->rehashidx] == NULL) d->rehashidx++\<close>: the index of the first
  non-empty bucket from \<open>i\<close> on; running off the table is a read outside it.
\<close>

fun skip_empty :: "('k, 'v) dictEntry list list \<Rightarrow> nat \<Rightarrow> nat \<Rightarrow> nat option" where
  "skip_empty tb i 0 = None"
| "skip_empty tb i (Suc n) =
     (if i < length tb then (if tb ! i = [] then skip_empty tb (i + 1) n else Some i) else None)"

text \<open>The move of one chain into the second table, entry by entry from the head.\<close>

fun move_chain :: "('k, 'v) dict \<Rightarrow> ('k, 'v) dictEntry list \<Rightarrow> ('k, 'v) dict option" where
  "move_chain d [] = Some d"
| "move_chain d (de # rest) =
     (let h = and (unat (dictHashKey d (key de))) (sizemask (ht1 d)) in
      if h < length (table (ht1 d)) then
        move_chain
          (d\<lparr>ht1 := (ht1 d)\<lparr>table := (table (ht1 d))[h := de # table (ht1 d) ! h],
                             used := used (ht1 d) + 1\<rparr>,
             ht0 := (ht0 d)\<lparr>used := used (ht0 d) - 1\<rparr>\<rparr>) rest
      else None)"

text \<open>\<open>dictRehash(d, 1)\<close>: one step; the dictionary and the value returned.\<close>

definition dictRehash1 :: "('k, 'v) dict \<Rightarrow> (('k, 'v) dict \<times> int) option" where
  "dictRehash1 d =
     (if \<not> dictIsRehashing d then Some (d, 0)
      else if used (ht0 d) = 0 then
        Some (d\<lparr>ht0 := ht1 d, ht1 := dictReset, rehashidx := - 1\<rparr>, 0)
      else if \<not> (0 \<le> rehashidx d \<and> nat (rehashidx d) < ht_size (ht0 d)) then None
      else do {
        i \<leftarrow> skip_empty (table (ht0 d)) (nat (rehashidx d)) (length (table (ht0 d)));
        d1 \<leftarrow> move_chain (d\<lparr>rehashidx := int i\<rparr>) (table (ht0 d) ! i);
        Some (d1\<lparr>ht0 := (ht0 d1)\<lparr>table := (table (ht0 d1))[i := []]\<rparr>,
                 rehashidx := int i + 1\<rparr>, 1) })"

definition dictRehashStep :: "('k, 'v) dict \<Rightarrow> ('k, 'v) dict option" where
  "dictRehashStep d =
     (if iterators d = 0 then map_option fst (dictRehash1 d) else Some d)"

text \<open>\<open>dict_can_resize\<close> is the process-wide flag, here the parameter \<open>can_resize\<close>.\<close>

definition dictExpandIfNeeded :: "bool \<Rightarrow> ('k, 'v) dict \<Rightarrow> ('k, 'v) dict \<times> dict_status" where
  "dictExpandIfNeeded can_resize d =
     (if dictIsRehashing d then (d, DICT_OK)
      else if ht_size (ht0 d) = 0 then dictExpand d DICT_HT_INITIAL_SIZE
      else if used (ht0 d) \<ge> ht_size (ht0 d) \<and>
              (can_resize \<or> used (ht0 d) div ht_size (ht0 d) > dict_force_resize_ratio)
      then dictExpand d (used (ht0 d) * 2)
      else (d, DICT_OK))"

text \<open>
  The bucket index as \<open>_dictKeyIndex\<close> computes it, \<open>h & sizemask\<close> kept in an
  \<open>unsigned int\<close> (the hash \<open>h\<close> has 32 bits, so nothing is cut off), and its conversion
  to the \<open>int\<close> that the function returns.
\<close>

definition bucket_idx :: "32 word \<Rightarrow> nat \<Rightarrow> nat" where
  "bucket_idx h m = and (unat h) m"

definition uint_to_int :: "nat \<Rightarrow> int" where
  "uint_to_int n = (if int n < 2 ^ 31 then int n else int n - 2 ^ 32)"

definition bucket_at :: "('k, 'v) dictht \<Rightarrow> nat \<Rightarrow> ('k, 'v) dictEntry list option" where
  "bucket_at ht i = (if i < length (table ht) then Some (table ht ! i) else None)"

definition chain_has :: "('k, 'v) dict \<Rightarrow> 'k \<Rightarrow> ('k, 'v) dictEntry list \<Rightarrow> bool" where
  "chain_has d k chain \<longleftrightarrow> list_ex (\<lambda>he. dictCompareKeys d k (key he)) chain"

text \<open>\<open>_dictKeyIndex\<close>: the dictionary (which it may expand) and the index or \<open>-1\<close>.\<close>

definition dictKeyIndex :: "bool \<Rightarrow> ('k, 'v) dict \<Rightarrow> 'k \<Rightarrow> (('k, 'v) dict \<times> int) option" where
  "dictKeyIndex can_resize d0 k =
     (case dictExpandIfNeeded can_resize d0 of
        (d, DICT_ERR) \<Rightarrow> Some (d, - 1)
      | (d, DICT_OK) \<Rightarrow>
          (let h = dictHashKey d k; idx0 = bucket_idx h (sizemask (ht0 d)) in
           do {
             c0 \<leftarrow> bucket_at (ht0 d) idx0;
             if chain_has d k c0 then Some (d, - 1)
             else if \<not> dictIsRehashing d then Some (d, uint_to_int idx0)
             else
               (let idx1 = bucket_idx h (sizemask (ht1 d)) in
                do {
                  c1 \<leftarrow> bucket_at (ht1 d) idx1;
                  if chain_has d k c1 then Some (d, - 1)
                  else Some (d, uint_to_int idx1) }) }))"

text \<open>
  \<open>dictAddRaw\<close>: the dictionary and the new entry, given by its table (0 or 1) and its
  bucket, where it is the head of the chain; \<open>None\<close> inside the result is \<open>NULL\<close>.
\<close>

definition dictAddRaw :: "bool \<Rightarrow> ('k, 'v) dict \<Rightarrow> 'k \<Rightarrow> (('k, 'v) dict \<times> (nat \<times> nat) option) option" where
  "dictAddRaw can_resize d0 k = do {
     d1 \<leftarrow> (if dictIsRehashing d0 then dictRehashStep d0 else Some d0);
     (d, index) \<leftarrow> dictKeyIndex can_resize d1 k;
     if index = - 1 then Some (d, None)
     else if index < 0 then None
     else
       (let i = nat index;
            entry = \<lparr>key = (case keyDup (dtype d) of Some f \<Rightarrow> f k | None \<Rightarrow> k), v_val = None\<rparr>
        in if dictIsRehashing d then do {
             c \<leftarrow> bucket_at (ht1 d) i;
             Some (d\<lparr>ht1 := (ht1 d)\<lparr>table := (table (ht1 d))[i := entry # c],
                                    used := used (ht1 d) + 1\<rparr>\<rparr>, Some (1, i)) }
           else do {
             c \<leftarrow> bucket_at (ht0 d) i;
             Some (d\<lparr>ht0 := (ht0 d)\<lparr>table := (table (ht0 d))[i := entry # c],
                                    used := used (ht0 d) + 1\<rparr>\<rparr>, Some (0, i)) }) }"

text \<open>\<open>dictSetVal\<close> on the entry at the head of bucket \<open>i\<close> of table \<open>t\<close>.\<close>

definition dictSetVal :: "('k, 'v) dict \<Rightarrow> nat \<times> nat \<Rightarrow> 'v \<Rightarrow> ('k, 'v) dict option" where
  "dictSetVal d loc val =
     (let val' = (case valDup (dtype d) of Some f \<Rightarrow> f val | None \<Rightarrow> val);
          ht = (if fst loc = 0 then ht0 d else ht1 d)
      in do {
        c \<leftarrow> bucket_at ht (snd loc);
        (case c of
           [] \<Rightarrow> None
         | e # rest \<Rightarrow>
             (let ht' = ht\<lparr>table := (table ht)[snd loc := e\<lparr>v_val := Some val'\<rparr> # rest]\<rparr>
              in Some (if fst loc = 0 then d\<lparr>ht0 := ht'\<rparr> else d\<lparr>ht1 := ht'\<rparr>))) })"

definition dictAdd :: "bool \<Rightarrow> ('k, 'v) dict \<Rightarrow> 'k \<Rightarrow> 'v \<Rightarrow> (('k, 'v) dict \<times> dict_status) option" where
  "dictAdd can_resize d k val = do {
     (d1, entry) \<leftarrow> dictAddRaw can_resize d k;
     case entry of
       None \<Rightarrow> Some (d1, DICT_ERR)
     | Some loc \<Rightarrow> do { d2 \<leftarrow> dictSetVal d1 loc val; Some (d2, DICT_OK) } }"

text \<open>The entries of a dictionary, as the spec counts them: those of both tables.\<close>

definition dict_entries :: "('k, 'v) dict \<Rightarrow> ('k, 'v) dictEntry multiset" where
  "dict_entries d = mset (concat (table (ht0 d))) + mset (concat (table (ht1 d)))"

definition key_present :: "('k, 'v) dict \<Rightarrow> 'k \<Rightarrow> bool" where
  "key_present d k \<longleftrightarrow> (\<exists>e \<in># dict_entries d. dictCompareKeys d k (key e))"

subsection \<open>The invariant of a dictionary\<close>

text \<open>
  A table is well formed when its bucket array has \<open>size\<close> entries, its mask is
  \<open>size - 1\<close>, its \<open>used\<close> counts its entries and it has at most \<open>2^31\<close> buckets; its entries
  are in place when each sits in the bucket its hash selects.
\<close>

definition table_ok :: "('k, 'v) dictht \<Rightarrow> bool" where
  "table_ok ht \<longleftrightarrow>
     length (table ht) = ht_size ht \<and> sizemask ht = ht_size ht - 1 \<and>
     used ht = length (concat (table ht)) \<and> int (ht_size ht) \<le> 2 ^ 31"

definition in_place :: "('k, 'v) dictType \<Rightarrow> ('k, 'v) dictht \<Rightarrow> bool" where
  "in_place ty ht \<longleftrightarrow>
     (\<forall>i < length (table ht). \<forall>e \<in> set (table ht ! i).
        bucket_idx (hashFunction ty (key e)) (sizemask ht) = i)"

text \<open>
  The contract of a type descriptor: keys that compare equal have the same hash, and a
  duplicated key hashes as the key it copies.
\<close>

definition type_ok :: "('k, 'v) dictType \<Rightarrow> bool" where
  "type_ok ty \<longleftrightarrow>
     (\<forall>a b. (case keyCompare ty of Some f \<Rightarrow> f a b | None \<Rightarrow> a = b)
              \<longrightarrow> hashFunction ty a = hashFunction ty b) \<and>
     (\<forall>a. hashFunction ty (case keyDup ty of Some f \<Rightarrow> f a | None \<Rightarrow> a) = hashFunction ty a)"

definition dict_inv :: "('k, 'v) dict \<Rightarrow> bool" where
  "dict_inv d \<longleftrightarrow>
     type_ok (dtype d) \<and> table_ok (ht0 d) \<and> table_ok (ht1 d) \<and>
     in_place (dtype d) (ht0 d) \<and> in_place (dtype d) (ht1 d) \<and>
     int (used (ht0 d) + used (ht1 d)) \<le> 2 ^ 30 \<and>
     (if rehashidx d = - 1 then ht1 d = dictReset
      else 0 \<le> rehashidx d \<and> 1 \<le> ht_size (ht0 d) \<and> 1 \<le> ht_size (ht1 d) \<and>
           (\<forall>i < nat (rehashidx d). i < length (table (ht0 d)) \<longrightarrow> table (ht0 d) ! i = []))"

text \<open>
  A type descriptor with no callbacks that hashes a string to its length, and a dictionary of
  this type holding the key \<open>''a''\<close> in bucket 1 of a table of four.
\<close>

definition ty_len :: "(string, nat) dictType" where
  "ty_len = \<lparr>hashFunction = (\<lambda>s. of_nat (length s)), keyDup = None, valDup = None,
              keyCompare = None\<rparr>"

definition dict_a :: "(string, nat) dict" where
  "dict_a = \<lparr>dtype = ty_len,
             ht0 = \<lparr>table = [[], [\<lparr>key = ''a'', v_val = Some 1\<rparr>], [], []], ht_size = 4, sizemask = 3,
                    used = 1\<rparr>,
             ht1 = dictReset, rehashidx = - 1, iterators = 0\<rparr>"

text \<open>
  The entry that \<open>dictAdd\<close> stores for a key and a value (\<open>dictSetKey\<close> and \<open>dictSetVal\<close>
  apply the duplication callbacks of the type), and the test that an entry is the head of
  one of the chains of a table.
\<close>

definition new_entry :: "('k, 'v) dict \<Rightarrow> 'k \<Rightarrow> 'v \<Rightarrow> ('k, 'v) dictEntry" where
  "new_entry d k val =
     \<lparr>key = (case keyDup (dtype d) of Some f \<Rightarrow> f k | None \<Rightarrow> k),
      v_val = Some (case valDup (dtype d) of Some f \<Rightarrow> f val | None \<Rightarrow> val)\<rparr>"

definition heads_chain :: "('k, 'v) dictht \<Rightarrow> ('k, 'v) dictEntry \<Rightarrow> bool" where
  "heads_chain ht e \<longleftrightarrow> list_ex (\<lambda>c. c \<noteq> [] \<and> hd c = e) (table ht)"

text \<open>
  A type descriptor whose hash function yields \<open>0xFFFFFFFF\<close> for every key, and the empty
  dictionary of this type with a table of \<open>2^32\<close> buckets.
\<close>

definition ty_ones :: "(string, nat) dictType" where
  "ty_ones = \<lparr>hashFunction = (\<lambda>s. 0xFFFFFFFF), keyDup = None, valDup = None,
               keyCompare = None\<rparr>"

definition dict_big :: "(string, nat) dict" where
  "dict_big = \<lparr>dtype = ty_ones,
               ht0 = \<lparr>table = replicate (2 ^ 32) [], ht_size = 2 ^ 32, sizemask = 2 ^ 32 - 1,
                      used = 0\<rparr>,
               ht1 = dictReset, rehashidx = - 1, iterators = 0\<rparr>"

section \<open>Verified properties of the packed-list encoding\<close>

lemma le_bytes_2:
  "le_bytes 2 w = [ucast w, ucast (drop_bit 8 w)]"
  by (simp add: le_bytes_def upt_rec numeral_nat)

lemma le_bytes_4:
  "le_bytes 4 w = [ucast w, ucast (drop_bit 8 w), ucast (drop_bit 16 w), ucast (drop_bit 24 w)]"
  by (simp add: le_bytes_def upt_rec numeral_nat)

lemma length_le_bytes [simp]: "length (le_bytes n w) = n"
  by (simp add: le_bytes_def)














section \<open>Verified properties of the packed-list cascade\<close>

lemma le_bytes_of_le_bytes_4:
  assumes "length bs = 4"
  shows "le_bytes 4 (of_le_bytes bs :: 32 word) = bs"
proof -
  from assms obtain a b c d where bs: "bs = [a, b, c, d]"
    by (auto simp: length_Suc_conv numeral_eq_Suc)
  let ?w = "ucast a OR push_bit 8 (ucast b OR push_bit 8 (ucast c OR push_bit 8 (ucast d :: 32 word)))"
  have 0: "(ucast ?w :: byte) = a"
    by (rule bit_word_eqI) (auto simp: bit_simps dest: bit_imp_le_length)
  have 1: "(ucast (drop_bit 8 ?w) :: byte) = b"
    by (rule bit_word_eqI) (auto simp: bit_simps dest: bit_imp_le_length)
  have 2: "(ucast (drop_bit 16 ?w) :: byte) = c"
    by (rule bit_word_eqI) (auto simp: bit_simps dest: bit_imp_le_length)
  have 3: "(ucast (drop_bit 24 ?w) :: byte) = d"
    by (rule bit_word_eqI) (auto simp: bit_simps dest: bit_imp_le_length)
  show ?thesis using 0 1 2 3 by (simp add: bs le_bytes_4)
qed

lemma of_le_bytes_le_bytes_4: "(of_le_bytes (le_bytes 4 (w :: 32 word)) :: 32 word) = w"
proof (rule bit_word_eqI)
  fix n assume n: "n < LENGTH(32)"
  consider "n < 8" | "8 \<le> n" "n < 16" | "16 \<le> n" "n < 24" | "24 \<le> n" by linarith
  then show "bit (of_le_bytes (le_bytes 4 w) :: 32 word) n = bit w n"
    using n by cases (auto simp: le_bytes_4 bit_simps)
qed

text \<open>What decoding an entry whose first byte is the 5-byte marker tells.\<close>

lemma zipEntry_large_prevlen:
  assumes "zipEntry zl r = Some e" "rd zl r = Some 0xFE"
  shows "prevrawlensize e = 5 \<and> r + 5 \<le> length zl
         \<and> prevrawlen e = unat (of_le_bytes (take 4 (drop (r + 1) zl)) :: 32 word)"
  using assms
  by (auto simp: zipEntry_def ZIP_DECODE_PREVLEN_def ZIP_DECODE_PREVLENSIZE_def rd_bytes_def
        bind_eq_Some_conv ZIP_BIGLEN_def split: if_splits)

lemma take_drop_replace:
  assumes "r + 5 \<le> length zl" "zl ! r = m"
  shows "take r zl @ (m # bs) @ drop (r + 5) zl = take (r + 1) zl @ bs @ drop (r + 5) zl"
  using assms by (simp add: take_Suc_conv_app_nth)

lemma take_drop_same:
  assumes "r + 5 \<le> length zl"
  shows "take (r + 1) zl @ take 4 (drop (r + 1) zl) @ drop (r + 5) zl = zl"
proof -
  have "drop (r + 5) zl = drop 4 (drop (r + 1) zl)" by (simp add: add.commute)
  then have "take 4 (drop (r + 1) zl) @ drop (r + 5) zl = drop (r + 1) zl"
    by (simp only: append_take_drop_id)
  then show ?thesis by (simp only: append_take_drop_id)
qed

lemma cascade_keeps_large_field:
  assumes cur: "zipEntry zl q = Some cur"
    and rl: "rawlen = headersize cur + len cur" "rawlen < 254"
    and here: "rd zl q = Some b" "b \<noteq> ZIP_END"
    and mark: "rd zl (q + rawlen) = Some 0xFE"
    and nxt: "zipEntry zl (q + rawlen) = Some nxt"
    and bytes: "ZIPLIST_BYTES zl = Some bytes"
  shows "ziplistCascadeUpdate zl q = Some (put_prevlen5 zl (q + rawlen) rawlen)"
proof -
  let ?r = "q + rawlen"
  from zipEntry_large_prevlen [OF nxt mark]
  have n5: "prevrawlensize nxt = 5" and inb: "?r + 5 \<le> length zl"
    and pl: "prevrawlen nxt = unat (of_le_bytes (take 4 (drop (?r + 1) zl)) :: 32 word)"
    by simp_all
  have m: "zl ! ?r = 0xFE" using mark by (simp add: rd_def split: if_splits)
  have ne: "(0xFE :: byte) \<noteq> ZIP_END" by (simp add: ZIP_END_def)
  have body: "cascade_body zl q (unat bytes) = Some (Break (put_prevlen5 zl ?r rawlen))"
  proof (cases "prevrawlen nxt = rawlen")
    case True
    have "length (take 4 (drop (?r + 1) zl)) = 4" using inb by simp
    then have "le_bytes 4 (of_le_bytes (take 4 (drop (?r + 1) zl)) :: 32 word)
        = take 4 (drop (?r + 1) zl)"
      by (rule le_bytes_of_le_bytes_4)
    moreover have "(of_nat rawlen :: 32 word) = of_le_bytes (take 4 (drop (?r + 1) zl))"
    proof -
      have "(of_nat (prevrawlen nxt) :: 32 word) = of_le_bytes (take 4 (drop (?r + 1) zl))"
        unfolding pl by simp
      then show ?thesis using True by simp
    qed
    ultimately have "put_prevlen5 zl ?r rawlen = zl"
      using take_drop_same [OF inb] by (simp add: put_prevlen5_def)
    then show ?thesis
      using cur rl mark nxt True ne
      by (simp add: cascade_body_def zipPrevEncodeLength_def ZIP_BIGLEN_def Let_def)
  next
    case False
    have "memcpy zl ?r (of_nat ZIP_BIGLEN # le_bytes 4 (of_nat rawlen :: 32 word))
        = Some (put_prevlen5 zl ?r rawlen)"
      using inb take_drop_replace [OF inb m, of "le_bytes 4 (of_nat rawlen :: 32 word)"]
      by (simp add: memcpy_def put_prevlen5_def ZIP_BIGLEN_def)
    then show ?thesis
      using cur rl mark nxt False ne n5
      by (simp add: cascade_body_def zipPrevEncodeLength_def zipPrevEncodeLengthForceLarge_def
            ZIP_BIGLEN_def Let_def)
  qed
  show ?thesis
    unfolding ziplistCascadeUpdate_def
    using bytes here body by (subst cascade_loop.simps) simp
qed

lemma put_prevlen5_props:
  assumes inb: "r + 5 \<le> length zl" and m: "zl ! r = 0xFE" and n: "n < 2 ^ 32"
  shows "length (put_prevlen5 zl r n) = length zl"
    and "ZIP_DECODE_PREVLEN (put_prevlen5 zl r n) r = Some (5, n)"
    and "\<forall>i < length zl. i \<le> r \<or> r + 5 \<le> i \<longrightarrow> put_prevlen5 zl r n ! i = zl ! i"
proof -
  let ?z = "put_prevlen5 zl r n"
  show len: "length ?z = length zl"
    using inb by (simp add: put_prevlen5_def)
  have r0: "?z ! r = 0xFE"
    using inb m by (simp add: put_prevlen5_def nth_append)
  have d: "drop (r + 1) ?z = le_bytes 4 (of_nat n :: 32 word) @ drop (r + 5) zl"
    using inb by (simp add: put_prevlen5_def)
  have bs: "take 4 (drop (r + 1) ?z) = le_bytes 4 (of_nat n :: 32 word)"
    unfolding d by simp
  have u: "unat (of_nat n :: 32 word) = n"
    using n by (simp add: unat_of_nat)
  show "ZIP_DECODE_PREVLEN ?z r = Some (5, n)"
    using inb len r0 bs u
    by (simp add: ZIP_DECODE_PREVLEN_def ZIP_DECODE_PREVLENSIZE_def rd_def rd_bytes_def
          ZIP_BIGLEN_def of_le_bytes_le_bytes_4)
  show "\<forall>i < length zl. i \<le> r \<or> r + 5 \<le> i \<longrightarrow> ?z ! i = zl ! i"
  proof (intro allI impI)
    fix i assume i: "i < length zl" and o: "i \<le> r \<or> r + 5 \<le> i"
    from o show "?z ! i = zl ! i"
    proof
      assume "i \<le> r"
      then show ?thesis using inb by (simp add: put_prevlen5_def nth_append)
    next
      assume ge: "r + 5 \<le> i"
      let ?pre = "take (r + 1) zl @ le_bytes 4 (of_nat n :: 32 word)"
      have lp: "length ?pre = r + 5" using inb by simp
      have "?z ! i = (?pre @ drop (r + 5) zl) ! i" by (simp add: put_prevlen5_def)
      also have "\<dots> = drop (r + 5) zl ! (i - (r + 5))"
        using ge lp by (simp only: nth_append) simp
      also have "\<dots> = zl ! i" using ge i by simp
      finally show ?thesis .
    qed
  qed
qed

lemma delete_B: "ziplistDelete blob_ABCD 20 = Some (blob_ACD, 20)"
  by code_simp

text \<open>
  C7 (as amended). In the cascade that a deletion or an insertion starts, when the entry
  at the cursor is shorter than 254 bytes and the \<open>prevlen\<close> field of its successor
  occupies 5 bytes, the cascade ends there, and its only effect is to rewrite the four
  length bytes of that field to the new length: the blob keeps its size, the field keeps
  its 5-byte width and its marker, and every other byte is unchanged.
\<close>

theorem C7_cascade_keeps_five_byte_prevlen:
  assumes "zipEntry zl q = Some cur"
    and "rawlen = headersize cur + len cur" and "rawlen < 254"
    and "rd zl q = Some b" and "b \<noteq> ZIP_END"
    and "rd zl (q + rawlen) = Some 0xFE"
    and "zipEntry zl (q + rawlen) = Some nxt"
    and "ZIPLIST_BYTES zl = Some bytes"
  shows "ziplistCascadeUpdate zl q = Some (put_prevlen5 zl (q + rawlen) rawlen) \<and>
         length (put_prevlen5 zl (q + rawlen) rawlen) = length zl \<and>
         ZIP_DECODE_PREVLEN (put_prevlen5 zl (q + rawlen) rawlen) (q + rawlen) = Some (5, rawlen) \<and>
         (\<forall>i < length zl. i \<le> q + rawlen \<or> q + rawlen + 5 \<le> i \<longrightarrow>
            put_prevlen5 zl (q + rawlen) rawlen ! i = zl ! i)"
proof -
  from zipEntry_large_prevlen [OF assms(7) assms(6)]
  have inb: "q + rawlen + 5 \<le> length zl" by simp
  have m: "zl ! (q + rawlen) = 0xFE" using assms(6) by (simp add: rd_def split: if_splits)
  have n: "rawlen < 2 ^ 32" using assms(3) by simp
  show ?thesis
    using cascade_keeps_large_field [OF assms] put_prevlen5_props [OF inb m n]
    by simp
qed

theorem C7_witness:
  "zipEntry blob_ACD_stale 20
     = Some \<lparr>prevrawlensize = 1, prevrawlen = 10, lensize = 2, len = 248, headersize = 3,
             encoding = 0x40, p = 20\<rparr> \<and>
   rd blob_ACD_stale 20 = Some 10 \<and> (10 :: byte) \<noteq> ZIP_END \<and>
   rd blob_ACD_stale 271 = Some 0xFE \<and>
   zipEntry blob_ACD_stale 271
     = Some \<lparr>prevrawlensize = 5, prevrawlen = 255, lensize = 1, len = 1, headersize = 6,
             encoding = 0, p = 271\<rparr> \<and>
   ZIPLIST_BYTES blob_ACD_stale = Some 279 \<and>
   ziplistCascadeUpdate blob_ACD_stale 20 = Some blob_ACD \<and>
   ZIP_DECODE_PREVLEN blob_ACD 271 = Some (5, 251)"
proof -
  let ?cur = "\<lparr>prevrawlensize = 1, prevrawlen = 10, lensize = 2, len = 248, headersize = 3,
             encoding = 0x40, p = 20\<rparr>"
  let ?nxt = "\<lparr>prevrawlensize = 5, prevrawlen = 255, lensize = 1, len = 1, headersize = 6,
             encoding = 0, p = 271\<rparr>"
  have h1: "zipEntry blob_ACD_stale 20 = Some ?cur" by code_simp
  have h2: "(251 :: nat) = headersize ?cur + len ?cur" by simp
  have h3: "(251 :: nat) < 254" by simp
  have h4: "rd blob_ACD_stale 20 = Some 10" by code_simp
  have h5: "(10 :: byte) \<noteq> ZIP_END" by (simp add: ZIP_END_def)
  have h6: "rd blob_ACD_stale (20 + 251) = Some 0xFE" by code_simp
  have h7: "zipEntry blob_ACD_stale (20 + 251) = Some ?nxt" by code_simp
  have h8: "ZIPLIST_BYTES blob_ACD_stale = Some 279" by code_simp
  have e: "put_prevlen5 blob_ACD_stale (20 + 251) 251 = blob_ACD" by code_simp
  note t = C7_cascade_keeps_five_byte_prevlen [OF h1 h2 h3 h4 h5 h6 h7 h8]
  from t have c1: "ziplistCascadeUpdate blob_ACD_stale 20 = Some blob_ACD"
    unfolding e by blast
  from t have c2: "ZIP_DECODE_PREVLEN blob_ACD (20 + 251) = Some (5, 251)"
    unfolding e by blast
  from h1 h4 h5 h6 h7 h8 c1 c2 show ?thesis by simp
qed

text \<open>
  C7 as stated fails for the entry that directly follows the deleted range: deleting \<open>B\<close>
  (300 bytes) makes \<open>A\<close> (10 bytes) the predecessor of \<open>C\<close>, whose \<open>prevlen\<close> field took
  5 bytes, and \<open>__ziplistDelete\<close> re-encodes that field in 1 byte; the rest of \<open>C\<close> is
  unchanged.
\<close>

theorem C7_counterexample:
  "ZIP_DECODE_PREVLEN blob_ABCD 320 = Some (5, 300) \<and>
   ziplistDelete blob_ABCD 20 = Some (blob_ACD, 20) \<and>
   ZIP_DECODE_PREVLEN blob_ACD 20 = Some (1, 10) \<and>
   take 250 (drop 21 blob_ACD) = take 250 (drop 325 blob_ABCD)"
proof -
  have a: "ZIP_DECODE_PREVLEN blob_ABCD 320 = Some (5, 300)" by code_simp
  have b: "ZIP_DECODE_PREVLEN blob_ACD 20 = Some (1, 10)" by code_simp
  have c: "take 250 (drop 21 blob_ACD) = take 250 (drop 325 blob_ABCD)" by code_simp
  from a b c delete_B show ?thesis by simp
qed

section \<open>The insertion that shrinks the blob\<close>

lemma push_A: "ziplistPush False ziplistNew payloadA ZIPLIST_TAIL = Some blob_A"
  by code_simp

lemma push_B: "ziplistPush False blob_A payloadB ZIPLIST_TAIL = Some blob_AB"
  by code_simp

lemma push_C: "ziplistPush False blob_AB payloadC ZIPLIST_TAIL = Some blob_ABC"
  by code_simp

lemma push_D: "ziplistPush False blob_ABC payloadD ZIPLIST_TAIL = Some blob_ABCD"
  by code_simp

lemma inv_ACD: "ziplist_inv blob_ACD"
  by code_simp

lemma insert_1_before_D: "ziplistInsert False blob_ACD 271 [0x31] = None"
  by code_simp

text \<open>
  C3 fails on the code. Four pushes at the tail and the deletion of the second entry leave
  the well-formed list \<open>blob_ACD\<close>, in which the last entry \<open>D\<close> keeps a 5-byte \<open>prevlen\<close>
  field for a predecessor of 251 bytes. Inserting the payload \<open>"1"\<close> (a 2-byte entry)
  before \<open>D\<close> computes \<open>nextdiff = -4\<close> and resizes the blob to 2 bytes less than it was
  before the bytes of \<open>D\<close> are moved: \<open>ziplistResize\<close> writes the terminator over the
  encoding byte of \<open>D\<close>, and the \<open>memmove\<close> that follows reads past the end of the
  resized allocation. No blob satisfying the invariant is returned.
\<close>

theorem C3_insert_before_five_byte_prevlen_fails:
  "ziplistPush False ziplistNew payloadA ZIPLIST_TAIL = Some blob_A \<and>
   ziplistPush False blob_A payloadB ZIPLIST_TAIL = Some blob_AB \<and>
   ziplistPush False blob_AB payloadC ZIPLIST_TAIL = Some blob_ABC \<and>
   ziplistPush False blob_ABC payloadD ZIPLIST_TAIL = Some blob_ABCD \<and>
   ziplistDelete blob_ABCD 20 = Some (blob_ACD, 20) \<and>
   ziplist_inv blob_ACD \<and>
   ziplistInsert False blob_ACD 271 [0x31] = None"
  using push_A push_B push_C push_D delete_B inv_ACD insert_1_before_D by simp

section \<open>Verified properties of the score aggregate\<close>

lemma dadd_isnan_iff:
  assumes "\<forall>r. rnd r \<noteq> NaN"
  shows "isnan (dadd rnd a b) \<longleftrightarrow>
           a = NaN \<or> b = NaN \<or> (a = PInf \<and> b = NInf) \<or> (a = NInf \<and> b = PInf)"
  using assms by (cases a; cases b) (auto simp: isnan_def)

text \<open>
  For the sum aggregate, whenever the sum of the accumulated score and the incoming value
  is NaN, the value stored is 0.0, and otherwise it is the sum; the value stored is never
  NaN. The sum is NaN exactly when one operand is \<open>+\<infinity>\<close> and the other \<open>-\<infinity>\<close>, or an operand
  is itself NaN.
\<close>

lemma sum_aggregate_never_stores_nan:
  assumes "\<forall>r. rnd r \<noteq> NaN"
  shows "zunionInterAggregate rnd target val REDIS_AGGR_SUM
           = Inr (if isnan (dadd rnd target val) then Finite 0 else dadd rnd target val) \<and>
         zunionInterAggregate rnd target val REDIS_AGGR_SUM \<noteq> Inr NaN \<and>
         (isnan (dadd rnd target val) \<longleftrightarrow>
            target = NaN \<or> val = NaN \<or> (target = PInf \<and> val = NInf) \<or>
            (target = NInf \<and> val = PInf))"
  using dadd_isnan_iff [OF assms, of target val]
  by (auto simp: zunionInterAggregate_def Let_def isnan_def)

lemma sum_aggregate_examples:
  "zunionInterAggregate Finite PInf NInf REDIS_AGGR_SUM = Inr (Finite 0) \<and>
   zunionInterAggregate Finite (Finite 1) (Finite 2) REDIS_AGGR_SUM = Inr (Finite 3)"
  by (simp add: zunionInterAggregate_def isnan_def)

text \<open>
  Claim C9 fails in the intersection. An element has the score 1 in the first input, of
  weight 1, and the score \<open>+\<infinity>\<close> in the second, of weight 0. The inner loop hands the
  weighted score \<open>+\<infinity> * 0\<close>, which is NaN, to \<open>zunionInterAggregate\<close> without the test that
  guards every initial score; the sum with the accumulated score 1 is NaN although no
  operand is infinite, and the score stored is 0.0: the accumulated score is lost. The union
  of the same inputs stores 1.0, and so does the intersection with the inputs in the other
  order.
\<close>

theorem C9_intersection_aggregates_unchecked_nan:
  "weighted_score Finite PInf (Finite 0) = NaN \<and>
   isnan (dadd Finite (Finite 1) (weighted_score Finite PInf (Finite 0))) \<and>
   \<not> ((Finite 1 = PInf \<and> weighted_score Finite PInf (Finite 0) = NInf) \<or>
       (Finite 1 = NInf \<and> weighted_score Finite PInf (Finite 0) = PInf)) \<and>
   inter_score Finite REDIS_AGGR_SUM (Finite 1) (Finite 1) [(PInf, Finite 0)] = Inr (Finite 0) \<and>
   union_score Finite REDIS_AGGR_SUM (Finite 1) (Finite 1) [(PInf, Finite 0)] = Inr (Finite 1) \<and>
   inter_score Finite REDIS_AGGR_SUM PInf (Finite 0) [(Finite 1, Finite 1)] = Inr (Finite 1)"
  by (simp add: weighted_score_def isnan_def zunionInterAggregate_def inter_score_def
      union_score_def initial_score_def)
section \<open>Verified properties of the level generator\<close>

lemma zslRandomLevel_loop_returns_after_failed_test:
  assumes "zslRandomLevel_loop draws i lvl = Some r"
  shows "\<exists>j. \<not> level_up (draws j)"
proof (rule zslRandomLevel_loop.raw_induct
    [where P = "\<lambda>draws i lvl r. \<exists>j. \<not> level_up (draws j)", OF _ assms])
  fix f :: "(nat \<Rightarrow> nat) \<Rightarrow> nat \<Rightarrow> 32 word \<Rightarrow> (32 word \<times> nat) option"
    and draws i lvl r
  assume ih: "\<And>draws i lvl r. f draws i lvl = Some r \<Longrightarrow> \<exists>j. \<not> level_up (draws j)"
    and b: "(if level_up (draws i) then f draws (i + 1) (lvl + 1) else Some (lvl, i + 1)) = Some r"
  show "\<exists>j. \<not> level_up (draws j)"
  proof (cases "level_up (draws i)")
    case True
    then show ?thesis using ih b by simp
  next
    case False
    then show ?thesis by blast
  qed
qed

lemma zslRandomLevel_loop_steps:
  "(\<forall>j < n. level_up (draws (i + j))) \<Longrightarrow> \<not> level_up (draws (i + n)) \<Longrightarrow>
     zslRandomLevel_loop draws i lvl = Some (lvl + of_nat n, i + n + 1)"
proof (induction n arbitrary: i lvl)
  case 0
  then show ?case by (subst zslRandomLevel_loop.simps) simp
next
  case (Suc n)
  have up: "level_up (draws i)" using Suc.prems(1) [rule_format, of 0] by simp
  have "zslRandomLevel_loop draws (i + 1) (lvl + 1) = Some (lvl + 1 + of_nat n, i + 1 + n + 1)"
  proof (rule Suc.IH)
    show "\<forall>j<n. level_up (draws (i + 1 + j))"
    proof (intro allI impI)
      fix j assume "j < n"
      then have "level_up (draws (i + Suc j))"
        using Suc.prems(1) [rule_format, of "Suc j"] by simp
      then show "level_up (draws (i + 1 + j))" by simp
    qed
    show "\<not> level_up (draws (i + 1 + n))" using Suc.prems(2) by simp
  qed
  then show ?case using up by (subst zslRandomLevel_loop.simps) (simp add: add.assoc)
qed

lemma sint_level:
  assumes "n < 2 ^ 31 - 1"
  shows "sint (1 + of_nat n :: 32 word) = int n + 1"
proof -
  have "(1 + of_nat n :: 32 word) = of_nat (Suc n)" by simp
  moreover have "sint (of_nat (Suc n) :: 32 word) = int (Suc n)"
    using assms by (simp add: signed_of_nat signed_take_bit_int_eq_self del: of_nat_Suc)
  ultimately show ?thesis by simp
qed

text \<open>
  When the first draw that fails the test comes after \<open>n\<close> draws that pass it, the
  generator returns \<open>min (n + 1) 32\<close>, having read \<open>n + 1\<close> draws.
\<close>

lemma zslRandomLevel_value:
  assumes "\<forall>j < n. level_up (draws (i + j))" "\<not> level_up (draws (i + n))" "n < 2 ^ 31 - 1"
  shows "zslRandomLevel draws i = Some (min (int n + 1) 32, i + n + 1)"
  using zslRandomLevel_loop_steps [OF assms(1,2), of 1] sint_level [OF assms(3)]
  by (simp add: zslRandomLevel_def ZSKIPLIST_MAXLEVEL_def min_def)

lemma zslRandomLevel_bounds:
  assumes "zslRandomLevel draws i = Some (k, i')"
  shows "k \<le> 32"
  using assms
  by (auto simp: zslRandomLevel_def ZSKIPLIST_MAXLEVEL_def bind_eq_Some_conv split: if_splits)

section \<open>Verified properties of the hash table\<close>

lemma and_nat_le_right: "and (a :: nat) m \<le> m"
proof -
  have "and (int a) (int m) \<le> int m" by (rule AND_upper2) simp
  then show ?thesis by (simp flip: of_nat_and_eq)
qed

lemma mset_concat_update_cons:
  assumes "i < length xs"
  shows "mset (concat (xs[i := e # xs ! i])) = add_mset e (mset (concat xs))"
proof -
  have "xs = take i xs @ xs ! i # drop (Suc i) xs" using assms by (rule id_take_nth_drop)
  then have "mset (concat xs)
      = mset (concat (take i xs)) + mset (xs ! i) + mset (concat (drop (Suc i) xs))"
    by (metis concat.simps(2) concat_append mset_append union_assoc)
  moreover have "mset (concat (xs[i := e # xs ! i]))
      = mset (concat (take i xs)) + add_mset e (mset (xs ! i)) + mset (concat (drop (Suc i) xs))"
    using assms by (simp add: upd_conv_take_nth_drop)
  ultimately show ?thesis by simp
qed

lemma mset_concat_update_nil:
  assumes "i < length xs"
  shows "mset (concat (xs[i := []])) + mset (xs ! i) = mset (concat xs)"
proof -
  have "xs = take i xs @ xs ! i # drop (Suc i) xs" using assms by (rule id_take_nth_drop)
  then have "mset (concat xs)
      = mset (concat (take i xs)) + mset (xs ! i) + mset (concat (drop (Suc i) xs))"
    by (metis concat.simps(2) concat_append mset_append union_assoc)
  moreover have "mset (concat (xs[i := []]))
      = mset (concat (take i xs)) + mset (concat (drop (Suc i) xs))"
    using assms by (simp add: upd_conv_take_nth_drop)
  ultimately show ?thesis by simp
qed

lemma length_concat_mset: "length (concat xs) = size (mset (concat xs))"
  by simp

lemma used_dictReset [simp]: "used dictReset = 0"
  by (simp add: dictReset_def)

lemma table_ok_dictReset [simp]: "table_ok dictReset"
  by (simp add: table_ok_def dictReset_def)

lemma in_place_dictReset [simp]: "in_place ty dictReset"
  by (simp add: in_place_def dictReset_def)

lemma bucket_idx_less:
  assumes "table_ok ht" "1 \<le> ht_size ht"
  shows "bucket_idx h (sizemask ht) < length (table ht)"
proof -
  have "and (unat h) (ht_size ht - 1) \<le> ht_size ht - 1" by (rule and_nat_le_right)
  then show ?thesis using assms by (simp add: table_ok_def bucket_idx_def)
qed

subsection \<open>One step of rehashing\<close>

lemma move_chain_spec:
  assumes "table_ok (ht1 d)" "1 \<le> ht_size (ht1 d)" "in_place (dtype d) (ht1 d)"
    "length c \<le> used (ht0 d)"
  shows "\<exists>d'. move_chain d c = Some d' \<and> dtype d' = dtype d \<and> rehashidx d' = rehashidx d \<and>
           iterators d' = iterators d \<and>
           table (ht0 d') = table (ht0 d) \<and> ht_size (ht0 d') = ht_size (ht0 d) \<and>
           sizemask (ht0 d') = sizemask (ht0 d) \<and>
           used (ht0 d') = used (ht0 d) - length c \<and>
           ht_size (ht1 d') = ht_size (ht1 d) \<and> sizemask (ht1 d') = sizemask (ht1 d) \<and>
           length (table (ht1 d')) = length (table (ht1 d)) \<and>
           used (ht1 d') = used (ht1 d) + length c \<and>
           mset (concat (table (ht1 d'))) = mset (concat (table (ht1 d))) + mset c \<and>
           in_place (dtype d) (ht1 d')"
  using assms
proof (induction c arbitrary: d)
  case Nil
  then show ?case by simp
next
  case (Cons de rest)
  let ?h = "bucket_idx (dictHashKey d (key de)) (sizemask (ht1 d))"
  let ?d1 = "d\<lparr>ht1 := (ht1 d)\<lparr>table := (table (ht1 d))[?h := de # table (ht1 d) ! ?h],
                             used := used (ht1 d) + 1\<rparr>,
             ht0 := (ht0 d)\<lparr>used := used (ht0 d) - 1\<rparr>\<rparr>"
  have hl: "?h < length (table (ht1 d))"
    using bucket_idx_less [OF Cons.prems(1,2)] .
  have ms: "mset (concat (table (ht1 ?d1))) = add_mset de (mset (concat (table (ht1 d))))"
    using hl by (simp add: mset_concat_update_cons)
  have t1: "table_ok (ht1 ?d1)"
    using Cons.prems(1) hl ms
    by (simp add: table_ok_def length_concat_mset del: mset_concat size_mset)
  have p1: "in_place (dtype ?d1) (ht1 ?d1)"
    unfolding in_place_def
  proof (intro allI impI ballI)
    fix i e
    assume i: "i < length (table (ht1 ?d1))" and e: "e \<in> set (table (ht1 ?d1) ! i)"
    show "bucket_idx (hashFunction (dtype ?d1) (key e)) (sizemask (ht1 ?d1)) = i"
    proof (cases "i = ?h")
      case True
      then have "e = de \<or> e \<in> set (table (ht1 d) ! i)" using e hl by auto
      then show ?thesis
        using True Cons.prems(3) hl by (auto simp: in_place_def dictHashKey_def)
    next
      case False
      then have "e \<in> set (table (ht1 d) ! i)" using e by simp
      then show ?thesis using Cons.prems(3) i by (auto simp: in_place_def)
    qed
  qed
  have "\<exists>d'. move_chain ?d1 rest = Some d' \<and> dtype d' = dtype ?d1 \<and>
           rehashidx d' = rehashidx ?d1 \<and> iterators d' = iterators ?d1 \<and>
           table (ht0 d') = table (ht0 ?d1) \<and> ht_size (ht0 d') = ht_size (ht0 ?d1) \<and>
           sizemask (ht0 d') = sizemask (ht0 ?d1) \<and>
           used (ht0 d') = used (ht0 ?d1) - length rest \<and>
           ht_size (ht1 d') = ht_size (ht1 ?d1) \<and> sizemask (ht1 d') = sizemask (ht1 ?d1) \<and>
           length (table (ht1 d')) = length (table (ht1 ?d1)) \<and>
           used (ht1 d') = used (ht1 ?d1) + length rest \<and>
           mset (concat (table (ht1 d'))) = mset (concat (table (ht1 ?d1))) + mset rest \<and>
           in_place (dtype ?d1) (ht1 d')"
  proof (rule Cons.IH)
    show "table_ok (ht1 ?d1)" by (rule t1)
    show "1 \<le> ht_size (ht1 ?d1)" using Cons.prems(2) by simp
    show "in_place (dtype ?d1) (ht1 ?d1)" by (rule p1)
    show "length rest \<le> used (ht0 ?d1)" using Cons.prems(4) by simp
  qed
  then obtain d' where d': "move_chain ?d1 rest = Some d'" "dtype d' = dtype ?d1"
      "rehashidx d' = rehashidx ?d1" "iterators d' = iterators ?d1"
      "table (ht0 d') = table (ht0 ?d1)" "ht_size (ht0 d') = ht_size (ht0 ?d1)"
      "sizemask (ht0 d') = sizemask (ht0 ?d1)"
      "used (ht0 d') = used (ht0 ?d1) - length rest"
      "ht_size (ht1 d') = ht_size (ht1 ?d1)" "sizemask (ht1 d') = sizemask (ht1 ?d1)"
      "length (table (ht1 d')) = length (table (ht1 ?d1))"
      "used (ht1 d') = used (ht1 ?d1) + length rest"
      "mset (concat (table (ht1 d'))) = mset (concat (table (ht1 ?d1))) + mset rest"
      "in_place (dtype ?d1) (ht1 d')"
    by blast
  have mc: "move_chain d (de # rest) = Some d'"
    using d'(1) hl by (simp add: Let_def bucket_idx_def)
  show ?case
    using mc d'(2-14) ms Cons.prems(4) by (simp del: mset_concat)
qed

lemma skip_empty_spec:
  assumes "j \<le> k" "k < length tb" "tb ! k \<noteq> []" "length tb - j \<le> n"
  shows "\<exists>i. skip_empty tb j n = Some i \<and> j \<le> i \<and> i < length tb \<and> tb ! i \<noteq> [] \<and>
             (\<forall>m. j \<le> m \<and> m < i \<longrightarrow> tb ! m = [])"
  using assms
proof (induction n arbitrary: j)
  case 0
  then show ?case by simp
next
  case (Suc n)
  have jl: "j < length tb" using Suc.prems by simp
  show ?case
  proof (cases "tb ! j = []")
    case False
    then show ?thesis using jl by auto
  next
    case True
    then have "j \<noteq> k" using Suc.prems(3) by auto
    then have "j + 1 \<le> k" using Suc.prems(1) by simp
    moreover have "length tb - (j + 1) \<le> n" using Suc.prems(4) by simp
    ultimately obtain i where i: "skip_empty tb (j + 1) n = Some i" "j + 1 \<le> i"
        "i < length tb" "tb ! i \<noteq> []" "\<forall>m. j + 1 \<le> m \<and> m < i \<longrightarrow> tb ! m = []"
      using Suc.IH [of "j + 1"] Suc.prems(2,3) by blast
    have "\<forall>m. j \<le> m \<and> m < i \<longrightarrow> tb ! m = []"
    proof (intro allI impI)
      fix m assume m: "j \<le> m \<and> m < i"
      show "tb ! m = []"
      proof (cases "m = j")
        case True then show ?thesis using \<open>tb ! j = []\<close> by simp
      next
        case False then show ?thesis using m i(5) by simp
      qed
    qed
    then show ?thesis using True jl i by auto
  qed
qed

lemma nonempty_bucket_exists:
  assumes "concat tb \<noteq> []" "\<forall>i < j. i < length tb \<longrightarrow> tb ! i = []"
  shows "\<exists>k. j \<le> k \<and> k < length tb \<and> tb ! k \<noteq> []"
proof -
  from assms(1) obtain c where "c \<in> set tb" "c \<noteq> []" by auto
  then obtain k where k: "k < length tb" "tb ! k = c" by (auto simp: in_set_conv_nth)
  have "j \<le> k"
  proof (rule ccontr)
    assume "\<not> j \<le> k"
    then have "tb ! k = []" using assms(2) k(1) by simp
    then show False using k(2) \<open>c \<noteq> []\<close> by simp
  qed
  then show ?thesis using k \<open>c \<noteq> []\<close> by auto
qed

lemma in_place_update_nil:
  assumes "in_place ty ht"
  shows "in_place ty (ht\<lparr>table := (table ht)[i := []]\<rparr>)"
  unfolding in_place_def
proof (intro allI impI ballI)
  fix m e
  assume m: "m < length (table (ht\<lparr>table := (table ht)[i := []]\<rparr>))"
    and e: "e \<in> set (table (ht\<lparr>table := (table ht)[i := []]\<rparr>) ! m)"
  have "m \<noteq> i" using m e by auto
  then have "e \<in> set (table ht ! m)" using e by simp
  then show "bucket_idx (hashFunction ty (key e))
      (sizemask (ht\<lparr>table := (table ht)[i := []]\<rparr>)) = m"
    using assms m by (auto simp: in_place_def)
qed

text \<open>A rehashing step keeps the invariant and the entries.\<close>

lemma dictRehash1_spec:
  assumes inv: "dict_inv d"
  shows "\<exists>d' r. dictRehash1 d = Some (d', r) \<and> dict_inv d' \<and> dtype d' = dtype d \<and>
           dict_entries d' = dict_entries d"
proof (cases "dictIsRehashing d")
  case False
  then show ?thesis using inv by (simp add: dictRehash1_def)
next
  case True
  then have rh: "rehashidx d \<noteq> - 1" by (simp add: dictIsRehashing_def)
  from inv rh have t0: "table_ok (ht0 d)" and t1: "table_ok (ht1 d)"
    and p0: "in_place (dtype d) (ht0 d)" and p1: "in_place (dtype d) (ht1 d)"
    and ty: "type_ok (dtype d)"
    and bound: "int (used (ht0 d) + used (ht1 d)) \<le> 2 ^ 30"
    and ge0: "0 \<le> rehashidx d" and s0: "1 \<le> ht_size (ht0 d)" and s1: "1 \<le> ht_size (ht1 d)"
    and below: "\<forall>i < nat (rehashidx d). i < length (table (ht0 d)) \<longrightarrow> table (ht0 d) ! i = []"
    by (simp_all add: dict_inv_def)
  show ?thesis
  proof (cases "used (ht0 d) = 0")
    case True
    then have "concat (table (ht0 d)) = []" using t0 by (simp add: table_ok_def)
    then have "dict_entries (d\<lparr>ht0 := ht1 d, ht1 := dictReset, rehashidx := - 1\<rparr>) = dict_entries d"
      by (simp add: dict_entries_def dictReset_def)
    moreover have "dict_inv (d\<lparr>ht0 := ht1 d, ht1 := dictReset, rehashidx := - 1\<rparr>)"
      using ty t1 p1 bound True by (simp add: dict_inv_def)
    ultimately show ?thesis
      using \<open>dictIsRehashing d\<close> True by (simp add: dictRehash1_def)
  next
    case False
    let ?tb = "table (ht0 d)"
    have ne: "concat ?tb \<noteq> []" using False t0 by (auto simp: table_ok_def)
    from nonempty_bucket_exists [OF ne below]
    obtain k where k: "nat (rehashidx d) \<le> k" "k < length ?tb" "?tb ! k \<noteq> []" by blast
    from skip_empty_spec [OF k, of "length ?tb"]
    obtain i where i: "skip_empty ?tb (nat (rehashidx d)) (length ?tb) = Some i"
        "nat (rehashidx d) \<le> i" "i < length ?tb" "?tb ! i \<noteq> []"
        "\<forall>m. nat (rehashidx d) \<le> m \<and> m < i \<longrightarrow> ?tb ! m = []"
      by auto
    have inrange: "0 \<le> rehashidx d \<and> nat (rehashidx d) < ht_size (ht0 d)"
      using ge0 k t0 by (simp add: table_ok_def)
    let ?c = "?tb ! i"
    let ?d0 = "d\<lparr>rehashidx := int i\<rparr>"
    have cl: "length ?c \<le> used (ht0 ?d0)"
    proof -
      have "mset (concat (?tb[i := []])) + mset ?c = mset (concat ?tb)"
        using i(3) by (rule mset_concat_update_nil)
      then have "size (mset ?c) \<le> size (mset (concat ?tb))"
        by (metis size_union le_add2)
      then show ?thesis using t0 by (simp add: table_ok_def del: mset_concat)
    qed
    from move_chain_spec [of ?d0 ?c] t1 s1 p1 cl
    obtain d1 where d1: "move_chain ?d0 ?c = Some d1" "dtype d1 = dtype d"
        "rehashidx d1 = int i" "iterators d1 = iterators d"
        "table (ht0 d1) = ?tb" "ht_size (ht0 d1) = ht_size (ht0 d)"
        "sizemask (ht0 d1) = sizemask (ht0 d)"
        "used (ht0 d1) = used (ht0 d) - length ?c"
        "ht_size (ht1 d1) = ht_size (ht1 d)" "sizemask (ht1 d1) = sizemask (ht1 d)"
        "length (table (ht1 d1)) = length (table (ht1 d))"
        "used (ht1 d1) = used (ht1 d) + length ?c"
        "mset (concat (table (ht1 d1))) = mset (concat (table (ht1 d))) + mset ?c"
        "in_place (dtype d) (ht1 d1)"
      by auto
    let ?d' = "d1\<lparr>ht0 := (ht0 d1)\<lparr>table := (table (ht0 d1))[i := []]\<rparr>, rehashidx := int i + 1\<rparr>"
    have res: "dictRehash1 d = Some (?d', 1)"
      using \<open>dictIsRehashing d\<close> False inrange i(1) d1(1) by (simp add: dictRehash1_def)
    have m0: "mset (concat (?tb[i := []])) + mset ?c = mset (concat ?tb)"
      using i(3) by (rule mset_concat_update_nil)
    have ent: "dict_entries ?d' = dict_entries d"
      using m0 d1(5,13) by (simp add: dict_entries_def del: mset_concat)
    have sz0: "size (mset (concat (?tb[i := []]))) + length ?c = size (mset (concat ?tb))"
      using m0 by (metis size_mset size_union)
    have u0: "used (ht0 d) = length (concat ?tb)" using t0 by (simp add: table_ok_def)
    have t0': "table_ok (ht0 ?d')"
      using t0 d1(5-8) sz0 u0 by (simp add: table_ok_def del: mset_concat)
    have t1': "table_ok (ht1 ?d')"
    proof -
      have "size (mset (concat (table (ht1 d1)))) = size (mset (concat (table (ht1 d)))) + length ?c"
        using d1(13) by (metis size_mset size_union)
      then show ?thesis using t1 d1(9-12) by (simp add: table_ok_def del: mset_concat)
    qed
    have p0': "in_place (dtype ?d') (ht0 ?d')"
    proof -
      have "in_place (dtype d) (ht0 d1)"
        using p0 d1(5,7) by (simp add: in_place_def)
      then have "in_place (dtype d) ((ht0 d1)\<lparr>table := (table (ht0 d1))[i := []]\<rparr>)"
        by (rule in_place_update_nil)
      then show ?thesis using d1(2) by simp
    qed
    have p1': "in_place (dtype ?d') (ht1 ?d')" using d1(2,14) by simp
    have below': "\<forall>m < nat (rehashidx ?d'). m < length (table (ht0 ?d')) \<longrightarrow> table (ht0 ?d') ! m = []"
    proof (intro allI impI)
      fix m assume m: "m < nat (rehashidx ?d')" and ml: "m < length (table (ht0 ?d'))"
      have mi: "m \<le> i" using m by simp
      show "table (ht0 ?d') ! m = []"
      proof (cases "m = i")
        case True then show ?thesis using ml d1(5) by simp
      next
        case False
        then have lt: "m < i" using mi by simp
        have "?tb ! m = []"
        proof (cases "m < nat (rehashidx d)")
          case True then show ?thesis using below ml d1(5) by simp
        next
          case False then show ?thesis using i(5) lt by simp
        qed
        then show ?thesis using False d1(5) by simp
      qed
    qed
    have bound': "int (used (ht0 ?d') + used (ht1 ?d')) \<le> 2 ^ 30"
      using bound d1(8,12) cl by simp
    have "dict_inv ?d'"
      unfolding dict_inv_def
      using ty d1(2) t0' t1' p0' p1' bound' below' s0 s1 d1(6,9) by simp
    then show ?thesis using res ent d1(2) by simp
  qed
qed

lemma dictRehashStep_spec:
  assumes "dict_inv d"
  shows "\<exists>d'. dictRehashStep d = Some d' \<and> dict_inv d' \<and> dtype d' = dtype d \<and>
           dict_entries d' = dict_entries d"
  using dictRehash1_spec [OF assms] assms by (auto simp: dictRehashStep_def)

subsection \<open>Expansion\<close>

lemma dictNextPower_loop_bounds:
  "(\<exists>a \<le> 31. i = 2 ^ a) \<Longrightarrow> sz \<le> 2 ^ 31 \<Longrightarrow>
     1 \<le> dictNextPower_loop i sz \<and> dictNextPower_loop i sz \<le> 2 ^ 31"
proof (induction i sz rule: dictNextPower_loop.induct)
  case (1 i sz)
  from "1.prems"(1) obtain a where a: "a \<le> 31" "i = 2 ^ a" by blast
  have ipos: "1 \<le> i" using a by simp
  have ile: "i \<le> 2 ^ 31" using a power_increasing [of a 31 "2::nat"] by simp
  show ?case
  proof (cases "i \<ge> sz \<or> i = 0")
    case True
    then show ?thesis using ipos ile by (subst dictNextPower_loop.simps) simp
  next
    case False
    then have "(2::nat) ^ a < 2 ^ 31" using a "1.prems"(2) by simp
    then have "a < 31" using power_strict_increasing_iff [of "2::nat" a 31] by simp
    then have "\<exists>b \<le> 31. i * 2 = 2 ^ b"
      using a by (intro exI [of _ "Suc a"]) simp
    then have "1 \<le> dictNextPower_loop (i * 2) sz \<and> dictNextPower_loop (i * 2) sz \<le> 2 ^ 31"
      using "1.IH" False "1.prems"(2) by simp
    then show ?thesis using False by (subst dictNextPower_loop.simps) simp
  qed
qed

lemma dictNextPower_bounds:
  assumes "sz \<le> 2 ^ 31"
  shows "1 \<le> dictNextPower sz \<and> int (dictNextPower sz) \<le> 2 ^ 31"
proof -
  have "\<exists>a \<le> 31. DICT_HT_INITIAL_SIZE = 2 ^ a"
    by (intro exI [of _ 2]) (simp add: DICT_HT_INITIAL_SIZE_def)
  from dictNextPower_loop_bounds [OF this assms]
  have b: "1 \<le> dictNextPower_loop DICT_HT_INITIAL_SIZE sz"
    "dictNextPower_loop DICT_HT_INITIAL_SIZE sz \<le> 2 ^ 31" by simp_all
  have "int (dictNextPower_loop DICT_HT_INITIAL_SIZE sz) \<le> int (2 ^ 31)"
    using b(2) by (simp only: of_nat_le_iff)
  moreover have "\<not> int sz \<ge> LONG_MAX"
  proof -
    have "int sz \<le> int (2 ^ 31)" using assms by (simp only: of_nat_le_iff)
    then show ?thesis by (simp add: LONG_MAX_def)
  qed
  ultimately show ?thesis using b(1) by (simp add: dictNextPower_def)
qed

lemma concat_replicate_nil [simp]: "concat (replicate n []) = []"
  by (induction n) simp_all

lemma new_table_ok:
  assumes "1 \<le> n" "int n \<le> 2 ^ 31"
  shows "table_ok \<lparr>table = replicate n [], ht_size = n, sizemask = n - 1, used = 0\<rparr>"
    and "in_place ty \<lparr>table = replicate n [], ht_size = n, sizemask = n - 1, used = 0\<rparr>"
  using assms by (simp_all add: table_ok_def in_place_def)

lemma dictExpandIfNeeded_spec:
  assumes inv: "dict_inv d"
  shows "\<exists>d'. dictExpandIfNeeded cr d = (d', DICT_OK) \<and> dict_inv d' \<and> dtype d' = dtype d \<and>
           dict_entries d' = dict_entries d \<and>
           (dictIsRehashing d' \<or> 1 \<le> ht_size (ht0 d'))"
proof (cases "dictIsRehashing d")
  case True
  then show ?thesis using inv by (simp add: dictExpandIfNeeded_def)
next
  case False
  then have rh: "rehashidx d = - 1" by (simp add: dictIsRehashing_def)
  from inv rh have t0: "table_ok (ht0 d)" and h1: "ht1 d = dictReset"
    and bound: "int (used (ht0 d)) \<le> 2 ^ 30"
    by (simp_all add: dict_inv_def)
  show ?thesis
  proof (cases "ht_size (ht0 d) = 0")
    case True
    then have e0: "table (ht0 d) = []" "used (ht0 d) = 0" using t0 by (simp_all add: table_ok_def)
    have np: "1 \<le> dictNextPower DICT_HT_INITIAL_SIZE \<and> int (dictNextPower DICT_HT_INITIAL_SIZE) \<le> 2 ^ 31"
      by (rule dictNextPower_bounds) (simp add: DICT_HT_INITIAL_SIZE_def)
    let ?n = "dictNextPower DICT_HT_INITIAL_SIZE"
    let ?d' = "d\<lparr>ht0 := \<lparr>table = replicate ?n [], ht_size = ?n, sizemask = ?n - 1, used = 0\<rparr>\<rparr>"
    have r: "dictExpandIfNeeded cr d = (?d', DICT_OK)"
      using False True e0 by (simp add: dictExpandIfNeeded_def dictExpand_def Let_def)
    have nt: "table_ok \<lparr>table = replicate ?n [], ht_size = ?n, sizemask = ?n - 1, used = 0\<rparr>"
      "in_place (dtype d) \<lparr>table = replicate ?n [], ht_size = ?n, sizemask = ?n - 1, used = 0\<rparr>"
      using np new_table_ok [of ?n] by blast+
    have "dict_inv ?d'"
      using inv rh nt unfolding dict_inv_def by simp
    moreover have "dict_entries ?d' = dict_entries d"
      using e0 by (simp add: dict_entries_def)
    ultimately show ?thesis using r np by simp
  next
    case nz: False
    show ?thesis
    proof (cases "used (ht0 d) \<ge> ht_size (ht0 d) \<and>
              (cr \<or> used (ht0 d) div ht_size (ht0 d) > dict_force_resize_ratio)")
      case False
      then have "dictExpandIfNeeded cr d = (d, DICT_OK)"
        using \<open>\<not> dictIsRehashing d\<close> nz by (auto simp: dictExpandIfNeeded_def)
      then show ?thesis using inv nz by simp
    next
      case True
      let ?sz = "used (ht0 d) * 2"
      have szb: "?sz \<le> 2 ^ 31"
      proof -
        have "int (used (ht0 d)) * 2 \<le> 2 ^ 31" using bound by simp
        then have "int ?sz \<le> int (2 ^ 31)" by simp
        then show ?thesis by (simp only: of_nat_le_iff)
      qed
      from dictNextPower_bounds [OF szb]
      have np: "1 \<le> dictNextPower ?sz" "int (dictNextPower ?sz) \<le> 2 ^ 31" by simp_all
      let ?n = "dictNextPower ?sz"
      let ?d' = "d\<lparr>ht1 := \<lparr>table = replicate ?n [], ht_size = ?n, sizemask = ?n - 1, used = 0\<rparr>,
                   rehashidx := 0\<rparr>"
      have tn: "table (ht0 d) \<noteq> []" using nz t0 by (auto simp: table_ok_def)
      have r: "dictExpandIfNeeded cr d = (?d', DICT_OK)"
        using \<open>\<not> dictIsRehashing d\<close> nz True tn
        by (simp add: dictExpandIfNeeded_def dictExpand_def Let_def)
      have nt: "table_ok \<lparr>table = replicate ?n [], ht_size = ?n, sizemask = ?n - 1, used = 0\<rparr>"
        "in_place (dtype d) \<lparr>table = replicate ?n [], ht_size = ?n, sizemask = ?n - 1, used = 0\<rparr>"
        using np new_table_ok [of ?n] by blast+
      have "dict_inv ?d'"
        using inv rh nt np(1) nz unfolding dict_inv_def by simp
      moreover have "dict_entries ?d' = dict_entries d"
        using h1 by (simp add: dict_entries_def dictReset_def)
      ultimately show ?thesis using r by (simp add: dictIsRehashing_def)
    qed
  qed
qed

subsection \<open>Lookup in a table\<close>

lemma chain_has_iff:
  assumes ty: "type_ok (dtype d)" and t: "table_ok ht" and pl: "in_place (dtype d) ht"
    and s: "1 \<le> ht_size ht"
  shows "bucket_at ht (bucket_idx (dictHashKey d k) (sizemask ht))
           = Some (table ht ! bucket_idx (dictHashKey d k) (sizemask ht)) \<and>
         (chain_has d k (table ht ! bucket_idx (dictHashKey d k) (sizemask ht))
            \<longleftrightarrow> (\<exists>e \<in> set (concat (table ht)). dictCompareKeys d k (key e)))"
proof -
  let ?i = "bucket_idx (dictHashKey d k) (sizemask ht)"
  have il: "?i < length (table ht)" using bucket_idx_less [OF t s] .
  have "(\<exists>e \<in> set (table ht ! ?i). dictCompareKeys d k (key e))
      \<longleftrightarrow> (\<exists>e \<in> set (concat (table ht)). dictCompareKeys d k (key e))"
  proof
    assume "\<exists>e \<in> set (table ht ! ?i). dictCompareKeys d k (key e)"
    then show "\<exists>e \<in> set (concat (table ht)). dictCompareKeys d k (key e)"
      using il by (auto intro: nth_mem)
  next
    assume "\<exists>e \<in> set (concat (table ht)). dictCompareKeys d k (key e)"
    then obtain e c where e: "e \<in> set c" "c \<in> set (table ht)" "dictCompareKeys d k (key e)"
      by auto
    then obtain j where j: "j < length (table ht)" "table ht ! j = c"
      by (auto simp: in_set_conv_nth)
    have "hashFunction (dtype d) k = hashFunction (dtype d) (key e)"
      using ty e(3) by (auto simp: type_ok_def dictCompareKeys_def)
    moreover have "bucket_idx (hashFunction (dtype d) (key e)) (sizemask ht) = j"
      using pl j e(1) by (auto simp: in_place_def)
    ultimately have "?i = j" by (simp add: dictHashKey_def)
    then show "\<exists>e \<in> set (table ht ! ?i). dictCompareKeys d k (key e)"
      using e j by auto
  qed
  then show ?thesis using il by (simp add: chain_has_def bucket_at_def list_ex_iff)
qed

subsection \<open>Strict insertion\<close>

lemma dictCompareKeys_dtype: "dtype d' = dtype d \<Longrightarrow> dictCompareKeys d' = dictCompareKeys d"
  by (intro ext) (simp add: dictCompareKeys_def)

lemma dictHashKey_dtype: "dtype d' = dtype d \<Longrightarrow> dictHashKey d' = dictHashKey d"
  by (intro ext) (simp add: dictHashKey_def)

lemma uint_to_int_small: "int n < 2 ^ 31 \<Longrightarrow> uint_to_int n = int n"
  by (simp add: uint_to_int_def)

lemma bucket_idx_int:
  assumes "table_ok ht" "1 \<le> ht_size ht"
  shows "uint_to_int (bucket_idx h (sizemask ht)) = int (bucket_idx h (sizemask ht))"
proof -
  have "bucket_idx h (sizemask ht) < length (table ht)" using assms by (rule bucket_idx_less)
  moreover have "int (length (table ht)) \<le> 2 ^ 31" using assms(1) by (simp add: table_ok_def)
  ultimately have "int (bucket_idx h (sizemask ht)) < 2 ^ 31" by linarith
  then show ?thesis by (rule uint_to_int_small)
qed

text \<open>Putting an entry at the head of the bucket its key selects.\<close>

lemma place_entry:
  assumes t: "table_ok ht" and pl: "in_place ty ht" and i: "i < length (table ht)"
    and e: "bucket_idx (hashFunction ty (key e)) (sizemask ht) = i"
    and u: "int (used ht) < 2 ^ 31"
  defines "ht' \<equiv> ht\<lparr>table := (table ht)[i := e # table ht ! i], used := used ht + 1\<rparr>"
  shows "table_ok ht'" and "in_place ty ht'"
    and "mset (concat (table ht')) = add_mset e (mset (concat (table ht)))"
proof -
  show m: "mset (concat (table ht')) = add_mset e (mset (concat (table ht)))"
    using i by (simp add: ht'_def mset_concat_update_cons)
  have "size (mset (concat (table ht'))) = Suc (size (mset (concat (table ht))))"
    by (simp only: m size_add_mset)
  then have "length (concat (table ht')) = Suc (length (concat (table ht)))" by simp
  then show "table_ok ht'" using t by (simp add: table_ok_def ht'_def)
  show "in_place ty ht'"
    unfolding in_place_def
  proof (intro allI impI ballI)
    fix j x assume j: "j < length (table ht')" and x: "x \<in> set (table ht' ! j)"
    have jl: "j < length (table ht)" using j by (simp add: ht'_def)
    show "bucket_idx (hashFunction ty (key x)) (sizemask ht') = j"
    proof (cases "j = i")
      case True
      then have "x = e \<or> x \<in> set (table ht ! i)" using x i by (simp add: ht'_def)
      then show ?thesis using e pl i True by (auto simp: in_place_def ht'_def)
    next
      case False
      then have "x \<in> set (table ht ! j)" using x by (simp add: ht'_def)
      then show ?thesis using pl jl by (simp add: in_place_def ht'_def)
    qed
  qed
qed

text \<open>Setting the value of the entry at the head of a bucket.\<close>

lemma set_head_value:
  assumes "i < length tb"
  shows "(tb[i := e # c])[i := e\<lparr>v_val := x\<rparr> # c] = tb[i := e\<lparr>v_val := x\<rparr> # c]"
  by simp

lemma key_present_tables:
  "key_present d k \<longleftrightarrow>
     (\<exists>e \<in> set (concat (table (ht0 d))). dictCompareKeys d k (key e)) \<or>
     (\<exists>e \<in> set (concat (table (ht1 d))). dictCompareKeys d k (key e))"
  unfolding key_present_def dict_entries_def by (simp only: set_mset_union set_mset_mset) blast

lemma key_present_cong:
  assumes "dtype d' = dtype d" "dict_entries d' = dict_entries d"
  shows "key_present d' k = key_present d k"
  using assms dictCompareKeys_dtype [OF assms(1)] by (simp add: key_present_def)

lemma dictKeyIndex_spec:
  assumes inv: "dict_inv d1"
  shows "\<exists>d2 ht. dictKeyIndex cr d1 k =
             Some (d2, if key_present d1 k then - 1
                       else int (bucket_idx (dictHashKey d1 k) (sizemask ht))) \<and>
           ht = (if dictIsRehashing d2 then ht1 d2 else ht0 d2) \<and>
           bucket_idx (dictHashKey d1 k) (sizemask ht) < length (table ht) \<and>
           dict_inv d2 \<and> dtype d2 = dtype d1 \<and> dict_entries d2 = dict_entries d1"
proof -
  from dictExpandIfNeeded_spec [OF inv, of cr] obtain d2 where
    ex: "dictExpandIfNeeded cr d1 = (d2, DICT_OK)" and inv2: "dict_inv d2"
    and ty: "dtype d2 = dtype d1" and en: "dict_entries d2 = dict_entries d1"
    and sz: "dictIsRehashing d2 \<or> 1 \<le> ht_size (ht0 d2)" by blast
  have s0: "1 \<le> ht_size (ht0 d2)"
    using sz inv2 by (auto simp: dictIsRehashing_def dict_inv_def split: if_splits)
  have tyok: "type_ok (dtype d2)" and t0: "table_ok (ht0 d2)" and t1: "table_ok (ht1 d2)"
    and p0: "in_place (dtype d2) (ht0 d2)" and p1: "in_place (dtype d2) (ht1 d2)"
    using inv2 by (simp_all add: dict_inv_def)
  have hk: "dictHashKey d2 k = dictHashKey d1 k" using dictHashKey_dtype [OF ty] by simp
  let ?i0 = "bucket_idx (dictHashKey d1 k) (sizemask (ht0 d2))"
  let ?i1 = "bucket_idx (dictHashKey d1 k) (sizemask (ht1 d2))"
  let ?in0 = "\<exists>e \<in> set (concat (table (ht0 d2))). dictCompareKeys d2 k (key e)"
  let ?in1 = "\<exists>e \<in> set (concat (table (ht1 d2))). dictCompareKeys d2 k (key e)"
  from chain_has_iff [OF tyok t0 p0 s0, of k]
  have b0: "bucket_at (ht0 d2) ?i0 = Some (table (ht0 d2) ! ?i0)"
    and c0: "chain_has d2 k (table (ht0 d2) ! ?i0) \<longleftrightarrow> ?in0"
    unfolding hk by blast+
  have l0: "?i0 < length (table (ht0 d2))" using bucket_idx_less [OF t0 s0] .
  have u0: "uint_to_int ?i0 = int ?i0" using bucket_idx_int [OF t0 s0] .
  have kp: "key_present d1 k \<longleftrightarrow> ?in0 \<or> ?in1"
    using key_present_cong [OF ty en, of k] key_present_tables [of d2 k] by simp
  show ?thesis
  proof (cases "dictIsRehashing d2")
    case False
    then have "ht1 d2 = dictReset" using inv2 by (simp add: dict_inv_def dictIsRehashing_def)
    then have "\<not> ?in1" by (simp add: dictReset_def)
    then have kp0: "key_present d1 k \<longleftrightarrow> ?in0" using kp by simp
    have "dictKeyIndex cr d1 k = Some (d2, if key_present d1 k then - 1 else int ?i0)"
      unfolding dictKeyIndex_def ex using False b0 c0 u0 kp0 hk by (simp add: Let_def)
    then show ?thesis using False l0 inv2 ty en by simp
  next
    case True
    then have s1: "1 \<le> ht_size (ht1 d2)"
      using inv2 by (simp add: dict_inv_def dictIsRehashing_def)
    from chain_has_iff [OF tyok t1 p1 s1, of k]
    have b1: "bucket_at (ht1 d2) ?i1 = Some (table (ht1 d2) ! ?i1)"
      and c1: "chain_has d2 k (table (ht1 d2) ! ?i1) \<longleftrightarrow> ?in1"
      unfolding hk by blast+
    have l1: "?i1 < length (table (ht1 d2))" using bucket_idx_less [OF t1 s1] .
    have u1: "uint_to_int ?i1 = int ?i1" using bucket_idx_int [OF t1 s1] .
    have "dictKeyIndex cr d1 k = Some (d2, if key_present d1 k then - 1 else int ?i1)"
      unfolding dictKeyIndex_def ex using True b0 c0 b1 c1 u1 kp hk by (simp add: Let_def)
    then show ?thesis using True l1 inv2 ty en by simp
  qed
qed

text \<open>
  Within the bounds of the invariant strict insertion does what its documentation says.
  For a dictionary that satisfies the invariant and any key, \<open>dictAdd\<close> returns;
  it returns \<open>DICT_ERR\<close> exactly when the key is present in one of the two tables, and then
  the entries are those before the call; when the key is absent it returns \<open>DICT_OK\<close>, the
  entries are those before the call and the new one, and the new entry is the head of a chain
  of the second table if the dictionary is rehashing, of the first if not. With fewer than
  \<open>2^30\<close> entries before the call the invariant holds after it.
\<close>

lemma dictAdd_within_bounds:
  assumes inv: "dict_inv d"
  shows "\<exists>d' st. dictAdd cr d k val = Some (d', st) \<and>
           (st = DICT_ERR \<longleftrightarrow> key_present d k) \<and>
           (key_present d k \<longrightarrow> dict_entries d' = dict_entries d) \<and>
           (\<not> key_present d k \<longrightarrow>
              dict_entries d' = add_mset (new_entry d k val) (dict_entries d) \<and>
              heads_chain (if dictIsRehashing d' then ht1 d' else ht0 d') (new_entry d k val)) \<and>
           (int (size (dict_entries d)) < 2 ^ 30 \<longrightarrow> dict_inv d')"
proof -
  have "\<exists>d1. (if dictIsRehashing d then dictRehashStep d else Some d) = Some d1 \<and>
          dict_inv d1 \<and> dtype d1 = dtype d \<and> dict_entries d1 = dict_entries d"
    using dictRehashStep_spec [OF inv] inv by (cases "dictIsRehashing d") simp_all
  then obtain d1 where
    step: "(if dictIsRehashing d then dictRehashStep d else Some d) = Some d1"
    and inv1: "dict_inv d1" and ty1: "dtype d1 = dtype d"
    and en1: "dict_entries d1 = dict_entries d" by blast
  from dictKeyIndex_spec [OF inv1, of cr k] obtain d2 ht where
    ki: "dictKeyIndex cr d1 k =
           Some (d2, if key_present d1 k then - 1
                     else int (bucket_idx (dictHashKey d1 k) (sizemask ht)))"
    and ht: "ht = (if dictIsRehashing d2 then ht1 d2 else ht0 d2)"
    and il: "bucket_idx (dictHashKey d1 k) (sizemask ht) < length (table ht)"
    and inv2: "dict_inv d2" and ty2: "dtype d2 = dtype d1"
    and en2: "dict_entries d2 = dict_entries d1" by blast
  have kp: "key_present d1 k = key_present d k" using key_present_cong [OF ty1 en1] .
  have ty: "dtype d2 = dtype d" using ty1 ty2 by simp
  have en: "dict_entries d2 = dict_entries d" using en1 en2 by simp
  show ?thesis
  proof (cases "key_present d k")
    case True
    have "dictAddRaw cr d k = Some (d2, None)"
      unfolding dictAddRaw_def step using ki True kp by simp
    then have "dictAdd cr d k val = Some (d2, DICT_ERR)" by (simp add: dictAdd_def)
    then show ?thesis using True en inv2 by simp
  next
    case False
    let ?i = "bucket_idx (dictHashKey d1 k) (sizemask ht)"
    let ?raw = "\<lparr>key = (case keyDup (dtype d2) of Some f \<Rightarrow> f k | None \<Rightarrow> k), v_val = None :: 'b option\<rparr>"
    let ?e = "new_entry d k val"
    let ?ht' = "ht\<lparr>table := (table ht)[?i := ?e # table ht ! ?i], used := used ht + 1\<rparr>"
    have e0: "?raw\<lparr>v_val := Some (case valDup (dtype d2) of Some f \<Rightarrow> f val | None \<Rightarrow> val)\<rparr> = ?e"
      by (simp add: new_entry_def ty)
    have ki': "dictKeyIndex cr d1 k = Some (d2, int ?i)" using ki False kp by simp
    have tyok: "type_ok (dtype d2)" using inv2 by (simp add: dict_inv_def)
    have tb: "table_ok ht" "in_place (dtype d2) ht"
      using inv2 ht by (simp_all add: dict_inv_def)
    have hash: "bucket_idx (hashFunction (dtype d2) (key ?e)) (sizemask ht) = ?i"
      using tyok by (simp add: new_entry_def ty type_ok_def dictHashKey_def ty1)
    have "int (used (ht0 d2) + used (ht1 d2)) \<le> 2 ^ 30" using inv2 by (simp add: dict_inv_def)
    then have ub: "int (used ht) < 2 ^ 31" using ht by (simp split: if_splits)
    note pe = place_entry [OF tb il hash ub]
    have "size (dict_entries d2) = used (ht0 d2) + used (ht1 d2)"
      using inv2 by (simp add: dict_inv_def table_ok_def dict_entries_def)
    then have sz: "size (dict_entries d) = used (ht0 d2) + used (ht1 d2)"
      unfolding en .
    have bat: "bucket_at ht ?i = Some (table ht ! ?i)" using il by (simp add: bucket_at_def)
    show ?thesis
    proof (cases "dictIsRehashing d2")
      case rh: True
      then have h1: "ht = ht1 d2" using ht by simp
      let ?d' = "d2\<lparr>ht1 := ?ht'\<rparr>"
      let ?dA = "d2\<lparr>ht1 := ht\<lparr>table := (table ht)[?i := ?raw # table ht ! ?i], used := used ht + 1\<rparr>\<rparr>"
      have raw: "dictAddRaw cr d k = Some (?dA, Some (1, ?i))"
        unfolding dictAddRaw_def step using ki' rh bat h1 by (simp add: Let_def)
      have sv: "dictSetVal ?dA (1, ?i) val = Some ?d'"
        using il e0 by (simp add: dictSetVal_def Let_def bucket_at_def)
      have res: "dictAdd cr d k val = Some (?d', DICT_OK)"
        using raw sv by (simp add: dictAdd_def)
      have rh': "dictIsRehashing ?d'" using rh by (simp add: dictIsRehashing_def)
      have ent: "dict_entries ?d' = add_mset ?e (dict_entries d)"
        using pe(3) en h1 by (simp add: dict_entries_def)
      have hd: "heads_chain (ht1 ?d') ?e"
        using il by (auto simp: heads_chain_def list_ex_iff set_conv_nth intro!: exI [of _ ?i])
      have "dict_inv ?d'" if "int (size (dict_entries d)) < 2 ^ 30"
      proof -
        have "int (used (ht0 d2) + used (ht1 d2)) < 2 ^ 30"
          using that unfolding sz .
        moreover have "rehashidx d2 \<noteq> - 1" using rh by (simp add: dictIsRehashing_def)
        ultimately show ?thesis
          using inv2 pe(1,2) h1 unfolding dict_inv_def by simp
      qed
      then show ?thesis using res False rh' ent hd by simp
    next
      case nrh: False
      then have h0: "ht = ht0 d2" using ht by simp
      let ?d' = "d2\<lparr>ht0 := ?ht'\<rparr>"
      let ?dA = "d2\<lparr>ht0 := ht\<lparr>table := (table ht)[?i := ?raw # table ht ! ?i], used := used ht + 1\<rparr>\<rparr>"
      have raw: "dictAddRaw cr d k = Some (?dA, Some (0, ?i))"
        unfolding dictAddRaw_def step using ki' nrh bat h0 by (simp add: Let_def)
      have sv: "dictSetVal ?dA (0, ?i) val = Some ?d'"
        using il e0 by (simp add: dictSetVal_def Let_def bucket_at_def)
      have res: "dictAdd cr d k val = Some (?d', DICT_OK)"
        using raw sv by (simp add: dictAdd_def)
      have rh': "\<not> dictIsRehashing ?d'" using nrh by (simp add: dictIsRehashing_def)
      have ent: "dict_entries ?d' = add_mset ?e (dict_entries d)"
        using pe(3) en h0 by (simp add: dict_entries_def)
      have hd: "heads_chain (ht0 ?d') ?e"
        using il by (auto simp: heads_chain_def list_ex_iff set_conv_nth intro!: exI [of _ ?i])
      have "dict_inv ?d'" if "int (size (dict_entries d)) < 2 ^ 30"
      proof -
        have "int (used (ht0 d2) + used (ht1 d2)) < 2 ^ 30"
          using that unfolding sz .
        moreover have "rehashidx d2 = - 1" using nrh by (simp add: dictIsRehashing_def)
        ultimately show ?thesis
          using inv2 pe(1,2) h0 unfolding dict_inv_def by simp
      qed
      then show ?thesis using res False rh' ent hd by simp
    qed
  qed
qed


lemma dictAdd_within_bounds_example:
  "dict_inv dict_a \<and> key_present dict_a ''a'' \<and> \<not> key_present dict_a ''bb'' \<and>
   (\<exists>d'. dictAdd True dict_a ''a'' 2 = Some (d', DICT_ERR) \<and>
      dict_entries d' = dict_entries dict_a) \<and>
   (\<exists>d'. dictAdd True dict_a ''bb'' 2 = Some (d', DICT_OK) \<and>
      dict_entries d' = add_mset \<lparr>key = ''bb'', v_val = Some 2\<rparr> (dict_entries dict_a) \<and>
      heads_chain (if dictIsRehashing d' then ht1 d' else ht0 d') \<lparr>key = ''bb'', v_val = Some 2\<rparr> \<and>
      dict_inv d')"
proof -
  have b: "bucket_idx 1 3 = 1" by (simp add: bucket_idx_def)
  have ip: "in_place ty_len (ht0 dict_a)"
    unfolding in_place_def
  proof (intro allI impI ballI)
    fix i e assume l: "i < length (table (ht0 dict_a))" and e: "e \<in> set (table (ht0 dict_a) ! i)"
    from l have "i < 4" by (simp add: dict_a_def)
    then have "i = 0 \<or> i = 1 \<or> i = 2 \<or> i = 3" by arith
    then have "i = 1 \<and> e = \<lparr>key = ''a'', v_val = Some 1\<rparr>"
      using e by (auto simp: dict_a_def)
    then show "bucket_idx (hashFunction ty_len (key e)) (sizemask (ht0 dict_a)) = i"
      using b by (simp add: ty_len_def dict_a_def)
  qed
  have i: "dict_inv dict_a"
    using ip by (simp add: dict_inv_def dict_a_def type_ok_def ty_len_def table_ok_def
        dictReset_def in_place_dictReset [unfolded dictReset_def])
  have p: "key_present dict_a ''a''"
    by (simp add: key_present_def dict_entries_def dict_a_def dictCompareKeys_def ty_len_def
        dictReset_def)
  have np: "\<not> key_present dict_a ''bb''"
    by (simp add: key_present_def dict_entries_def dict_a_def dictCompareKeys_def ty_len_def
        dictReset_def)
  have ne: "new_entry dict_a ''bb'' 2 = \<lparr>key = ''bb'', v_val = Some 2\<rparr>"
    by (simp add: new_entry_def dict_a_def ty_len_def)
  have sz: "int (size (dict_entries dict_a)) < 2 ^ 30"
    by (simp add: dict_entries_def dict_a_def dictReset_def)
  from dictAdd_within_bounds [OF i, of True "''a''" 2]
  obtain da sa where
    ra: "dictAdd True dict_a ''a'' 2 = Some (da, sa)"
    and ia: "sa = DICT_ERR \<longleftrightarrow> key_present dict_a ''a''"
    and ea: "key_present dict_a ''a'' \<longrightarrow> dict_entries da = dict_entries dict_a"
    by blast
  have 1: "\<exists>d'. dictAdd True dict_a ''a'' 2 = Some (d', DICT_ERR) \<and>
      dict_entries d' = dict_entries dict_a"
    using ra ia ea p by (intro exI [of _ da]) simp
  from dictAdd_within_bounds [OF i, of True "''bb''" 2]
  obtain db sb where
    rb: "dictAdd True dict_a ''bb'' 2 = Some (db, sb)"
    and ib: "sb = DICT_ERR \<longleftrightarrow> key_present dict_a ''bb''"
    and eb: "\<not> key_present dict_a ''bb'' \<longrightarrow>
      dict_entries db = add_mset (new_entry dict_a ''bb'' 2) (dict_entries dict_a) \<and>
      heads_chain (if dictIsRehashing db then ht1 db else ht0 db) (new_entry dict_a ''bb'' 2)"
    and vb: "int (size (dict_entries dict_a)) < 2 ^ 30 \<longrightarrow> dict_inv db"
    by blast
  have sb: "sb = DICT_OK" using ib np by (cases sb) simp_all
  have 2: "\<exists>d'. dictAdd True dict_a ''bb'' 2 = Some (d', DICT_OK) \<and>
      dict_entries d' = add_mset \<lparr>key = ''bb'', v_val = Some 2\<rparr> (dict_entries dict_a) \<and>
      heads_chain (if dictIsRehashing d' then ht1 d' else ht0 d') \<lparr>key = ''bb'', v_val = Some 2\<rparr> \<and>
      dict_inv d'"
  proof (intro exI [of _ db] conjI)
    show "dictAdd True dict_a ''bb'' 2 = Some (db, DICT_OK)" using rb sb by simp
    show "dict_entries db = add_mset \<lparr>key = ''bb'', v_val = Some 2\<rparr> (dict_entries dict_a)"
      using eb np unfolding ne by blast
    show "heads_chain (if dictIsRehashing db then ht1 db else ht0 db) \<lparr>key = ''bb'', v_val = Some 2\<rparr>"
      using eb np unfolding ne by blast
    show "dict_inv db" using vb sz by blast
  qed
  from i p np 1 2 show ?thesis by blast
qed


subsection \<open>The index of a free slot as an \<open>int\<close>\<close>

lemma dictNextPower_loop_power:
  "a \<le> b \<Longrightarrow> dictNextPower_loop (2 ^ a) (2 ^ b) = 2 ^ b"
proof (induction "b - a" arbitrary: a)
  case 0
  then have "a = b" by simp
  then show ?case by (subst dictNextPower_loop.simps) simp
next
  case (Suc n)
  then have lt: "a < b" and n: "n = b - Suc a" and le: "Suc a \<le> b" by simp_all
  have "(2::nat) ^ a < 2 ^ b" using lt by (simp add: power_strict_increasing_iff)
  then have "dictNextPower_loop (2 ^ a) (2 ^ b) = dictNextPower_loop (2 ^ a * 2) (2 ^ b)"
    by (subst dictNextPower_loop.simps) simp
  also have "2 ^ a * 2 = (2::nat) ^ Suc a" by simp
  also have "dictNextPower_loop (2 ^ Suc a) (2 ^ b) = 2 ^ b" using Suc.hyps(1) [OF n le] .
  finally show ?case .
qed

lemma dictNextPower_2_32: "dictNextPower (2 ^ 32) = 2 ^ 32"
proof -
  have "dictNextPower_loop (2 ^ 2) (2 ^ 32) = 2 ^ 32"
    by (rule dictNextPower_loop_power) simp
  moreover have "\<not> int (2 ^ 32) \<ge> LONG_MAX" by (simp add: LONG_MAX_def)
  ultimately show ?thesis by (simp add: dictNextPower_def DICT_HT_INITIAL_SIZE_def)
qed

text \<open>
  Claim C6 fails on a table of \<open>2^32\<close> buckets, which \<open>dictExpand\<close> creates on request
  (\<open>dict_big\<close>): the index \<open>0xFFFFFFFF\<close> of a key whose hash is \<open>0xFFFFFFFF\<close> leaves
  \<open>_dictKeyIndex\<close> as the \<open>int\<close> \<open>-1\<close>, which \<open>dictAddRaw\<close> takes for "the key exists". The
  dictionary is empty, the key is absent, and \<open>dictAdd\<close> returns \<open>DICT_ERR\<close> and stores
  nothing.
\<close>

theorem C6_absent_key_reported_duplicate:
  "dictExpand (dictCreate ty_ones) (2 ^ 32) = (dict_big, DICT_OK) \<and>
   dict_entries dict_big = {#} \<and>
   \<not> key_present dict_big ''a'' \<and>
   dictKeyIndex True dict_big ''a'' = Some (dict_big, - 1) \<and>
   dictAdd True dict_big ''a'' 1 = Some (dict_big, DICT_ERR) \<and>
   dictAdd False dict_big ''a'' 1 = Some (dict_big, DICT_ERR)"
proof -
  have n32: "dictNextPower 4294967296 = 4294967296" using dictNextPower_2_32 by simp
  have ex: "dictExpand (dictCreate ty_ones) (2 ^ 32) = (dict_big, DICT_OK)"
    by (simp add: dictExpand_def n32 dictCreate_def dictReset_def
        dictIsRehashing_def dict_big_def Let_def)
  have en: "dict_entries dict_big = {#}"
    by (simp add: dict_entries_def dict_big_def dictReset_def)
  have np: "\<not> key_present dict_big ''a''"
    by (simp add: key_present_def en)
  have nr: "\<not> dictIsRehashing dict_big" by (simp add: dictIsRehashing_def dict_big_def)
  have xp: "dictExpandIfNeeded cr dict_big = (dict_big, DICT_OK)" for cr
    by (simp add: dictExpandIfNeeded_def nr) (simp add: dict_big_def)
  have un: "unat (0xFFFFFFFF :: 32 word) = 4294967295" by simp
  have ix: "bucket_idx (dictHashKey dict_big ''a'') (sizemask (ht0 dict_big)) = 4294967295"
    by (simp add: bucket_idx_def dictHashKey_def dict_big_def ty_ones_def un)
  have ba: "bucket_at (ht0 dict_big) 4294967295 = Some []"
    by (simp add: bucket_at_def dict_big_def)
  have ui: "uint_to_int 4294967295 = - 1" by (simp add: uint_to_int_def)
  have ki: "dictKeyIndex cr dict_big ''a'' = Some (dict_big, - 1)" for cr
    by (simp add: dictKeyIndex_def xp Let_def ix ba chain_has_def nr ui)
  have raw: "dictAddRaw cr dict_big ''a'' = Some (dict_big, None)" for cr
    by (simp add: dictAddRaw_def nr ki)
  have add: "dictAdd cr dict_big ''a'' 1 = Some (dict_big, DICT_ERR)" for cr
    by (simp add: dictAdd_def raw)
  from ex en np ki [of True] add [of True] add [of False] show ?thesis by simp
qed
section \<open>Rank and lexicographic range of the skip list\<close>

lemma zslRandomLevel_level1: "zslRandomLevel draws_level1 i = Some (1, i + 1)"
  using zslRandomLevel_value [of 0 draws_level1 i]
  by (simp add: draws_level1_def level_up_def ZSKIPLIST_P_def)

lemmas skiplist_eval =
  zslCreate_def zslCreateNode_def zmalloc_def heap_empty_def zslInsert_def
  redisAssert_def isnan_def bindE_def update_new_def rank_new_def ZSKIPLIST_MAXLEVEL_def
  arr_get_def arr_set_def deref_def store_def lvl_get_def lvl_set_def nonnull_def
  Let_def split_def eval_nat_numeral sh0_def compareStringObjects_def equalStringObjects_def
  deq_def zsl_pairs_def zsl_nodes_def


lemma memcmp_len_same [simp]: "memcmp_len s s = 0"
  by (induction s) simp_all

lemma memcmp_len_longer: "0 < memcmp_len (s @ c # t) s"
  by (induction s) simp_all

text \<open>
  Claim C5 fails for the range above the bytes of \<open>shared.maxstring\<close>, exclusive, with
  no upper bound. \<open>zslIsInLexRange\<close> tests \<open>min = max\<close> with \<open>compareStringObjects\<close>, which
  compares the upper bound \<open>shared.maxstring\<close> by its bytes, finds it equal to the lower
  bound and takes the range for empty, so \<open>zslFirstInLexRange\<close> returns \<open>NULL\<close> on every
  list, whatever the bytes of the shared objects are. The range is not empty: an element
  that extends those bytes passes both bound tests, and the list that holds this one
  element gets \<open>NULL\<close>.
\<close>

theorem C5_first_in_lex_range_misses_element:
  "(\<forall>mn mx fuel h zsl.
      zslLexValueGteMin (mn, mx) (Str (mx @ ''a'')) (lex_above mx) \<and>
      zslLexValueLteMax (mn, mx) (Str (mx @ ''a'')) (lex_above mx) \<and>
      zslFirstInLexRange fuel (mn, mx) h zsl (lex_above mx) = Inr None) \<and>
   bindE (single_list (Finite 0) (Str ''maxstringa'')) (\<lambda>(h, zsl, x, di).
     Inr (zsl_pairs h zsl, zslFirstInLexRange 4 sh0 h zsl (lex_above ''maxstring'')))
   = Inr ([(Some (Str ''maxstringa''), Finite 0)], Inr None)"
proof -
  have a: "zslLexValueGteMin (mn, mx) (Str (mx @ ''a'')) (lex_above mx)" for mn mx
    using memcmp_len_longer [of mx "CHR ''a''" "[]"]
    by (simp add: zslLexValueGteMin_def lex_above_def compareStringObjectsForLexRange_def
        compareStringObjects_def)
  have b: "zslLexValueLteMax (mn, mx) (Str (mx @ ''a'')) (lex_above mx)" for mn mx
    by (simp add: zslLexValueLteMax_def lex_above_def compareStringObjectsForLexRange_def)
  have c: "zslIsInLexRange (mn, mx) h zsl (lex_above mx) = Inr False" for mn mx h zsl
    by (simp add: zslIsInLexRange_def lex_above_def compareStringObjects_def)
  have d: "zslFirstInLexRange fuel (mn, mx) h zsl (lex_above mx) = Inr None"
    for mn mx fuel h zsl
    by (simp add: zslFirstInLexRange_def c bindE_def)
  have e: "bindE (single_list (Finite 0) (Str ''maxstringa'')) (\<lambda>(h, zsl, x, di).
     Inr (zsl_pairs h zsl, zslFirstInLexRange 4 sh0 h zsl (lex_above ''maxstring'')))
   = Inr ([(Some (Str ''maxstringa''), Finite 0)], Inr None)"
    using d [of 4 "''minstring''" "''maxstring''"]
    by (simp add: single_list_def skiplist_eval zslRandomLevel_level1)
  from a b d e show ?thesis by blast
qed

subsection \<open>Array indices and node levels in the insertion\<close>

lemma index_safe_bindE:
  assumes "index_safe Q m" "\<And>x. Q x \<Longrightarrow> index_safe P (f x)"
  shows "index_safe P (bindE m f)"
  using assms by (cases m) (auto simp: index_safe_def bindE_def)

lemma index_safe_Inr: "P y \<Longrightarrow> index_safe P (Inr y)"
  by (simp add: index_safe_def)

lemma index_safe_weaken:
  assumes "index_safe Q m" "\<And>y. Q y \<Longrightarrow> P y"
  shows "index_safe P m"
  using assms by (auto simp: index_safe_def)

lemma index_safe_deref:
  "index_safe (\<lambda>n. nlevels h a = Some (length (level n))) (deref h a)"
  by (simp add: index_safe_def deref_def nlevels_def split: option.splits)

lemma index_safe_lvl_get: "index_safe (\<lambda>_. True) (lvl_get n i)"
  by (simp add: index_safe_def lvl_get_def)

lemma index_safe_lvl_set:
  "index_safe (\<lambda>n'. length (level n') = length (level n)) (lvl_set n i l)"
  by (auto simp: index_safe_def lvl_set_def)

lemma index_safe_arr_get:
  "0 \<le> i \<Longrightarrow> i < int (length xs) \<Longrightarrow> index_safe (\<lambda>_. True) (arr_get xs i)"
  by (simp add: index_safe_def arr_get_def split: option.splits)

lemma index_safe_arr_set:
  "0 \<le> i \<Longrightarrow> i < int (length xs) \<Longrightarrow>
     index_safe (\<lambda>ys. length ys = length xs) (arr_set xs i v)"
  by (auto simp: index_safe_def arr_set_def)

lemma index_safe_nonnull: "index_safe (\<lambda>_. True) (nonnull x)"
  by (simp add: index_safe_def nonnull_def split: option.splits)

lemma index_safe_redisAssert: "index_safe (\<lambda>_. True) (redisAssert c)"
  by (simp add: index_safe_def redisAssert_def)

lemma nlevels_store: "nlevels (store h a n) = (nlevels h)(a \<mapsto> length (level n))"
  by (auto simp: nlevels_def store_def)

lemma nlevels_same: "nlevels h a = Some k \<Longrightarrow> (nlevels h)(a \<mapsto> k) = nlevels h"
  by (rule map_upd_triv)

lemma index_safe_insert_walk: "index_safe (\<lambda>_. True) (insert_walk fuel sh h x i sc ob r)"
proof (induction fuel arbitrary: x r)
  case 0
  then show ?case by (simp add: index_safe_def)
next
  case (Suc fuel)
  show ?case
    apply (simp only: insert_walk.simps)
    apply (rule index_safe_bindE, rule index_safe_deref)
    apply (rule index_safe_bindE, rule index_safe_lvl_get)
    subgoal for xn l
      apply (cases "forward l")
       apply (simp add: index_safe_Inr)
      apply (simp only: option.case)
      apply (rule index_safe_bindE, rule index_safe_deref)
      subgoal for f fn
        apply (cases "dless (score fn) sc")
         apply (simp add: Suc.IH)
        apply (cases "deq (score fn) sc")
         apply (simp only: if_False if_True)
         apply (rule index_safe_bindE, rule index_safe_nonnull)
         apply (simp add: Suc.IH index_safe_Inr)
        apply (simp add: index_safe_Inr)
        done
      done
    done
qed

lemma insert_search_safe:
  assumes "n \<le> nat (zsl_level zsl)" "zsl_level zsl \<le> int (length rank)"
    "length update = length rank"
  shows "index_safe (\<lambda>(u, r). length u = length update \<and> length r = length rank)
           (insert_search fuel sh h zsl sc ob n x update rank)"
  using assms
proof (induction n arbitrary: x update rank)
  case 0
  then show ?case by (simp add: index_safe_Inr)
next
  case (Suc i)
  have i1: "int i < int (length rank)" "int i < int (length update)"
    using Suc.prems by linarith+
  have i2: "int i \<noteq> zsl_level zsl - 1 \<Longrightarrow> int i + 1 < int (length rank)"
    using Suc.prems by linarith
  have ih: "index_safe (\<lambda>(u, r). length u = length update \<and> length r = length rank)
              (insert_search fuel sh h zsl sc ob i x' u1 r2)"
    if "length u1 = length update" "length r2 = length rank" for x' u1 r2
    using Suc.IH [of r2 u1 x'] Suc.prems that by simp
  have first: "index_safe (\<lambda>_. True)
      (if int i = zsl_level zsl - 1 then Inr 0 else arr_get rank (int i + 1))"
    using i2 by (simp add: index_safe_Inr index_safe_arr_get)
  show ?case
    apply (simp only: insert_search.simps)
    apply (rule index_safe_bindE, rule first)
    apply (rule index_safe_bindE, rule index_safe_arr_set, simp, rule i1(1))
    apply (rule index_safe_bindE, rule index_safe_insert_walk)
    apply (simp only: split_paired_all prod.case)
    apply (rule index_safe_bindE, rule index_safe_arr_set, simp, (use i1 in simp))
    apply (rule index_safe_bindE, rule index_safe_arr_set, simp, rule i1(2))
    apply (rule ih)
     apply simp_all
    done
qed

lemma insert_raise_safe:
  assumes "0 \<le> i" "i + int n \<le> int (length rank)" "length update = length rank"
  shows "index_safe (\<lambda>(h', u, r). length u = length update \<and> length r = length rank \<and>
                       nlevels h' = nlevels h)
           (insert_raise h zsl i n update rank)"
  using assms
proof (induction n arbitrary: h i update rank)
  case 0
  then show ?case by (simp add: index_safe_Inr)
next
  case (Suc n)
  have b: "0 \<le> i" "i < int (length rank)" "i < int (length update)" using Suc.prems by simp_all
  have ih: "index_safe (\<lambda>(h', u, r). length u = length update \<and> length r = length rank \<and>
                       nlevels h' = nlevels h)
              (insert_raise h1 zsl (i + 1) n u1 r1)"
    if "length u1 = length update" "length r1 = length rank" "nlevels h1 = nlevels h"
    for h1 u1 r1
    using Suc.IH [of "i + 1" r1 u1 h1] Suc.prems that by simp
  show ?case
    apply (simp only: insert_raise.simps)
    apply (rule index_safe_bindE, rule index_safe_arr_set, rule b(1), rule b(2))
    apply (rule index_safe_bindE, rule index_safe_arr_set, rule b(1), rule b(3))
    apply (rule index_safe_bindE, rule index_safe_arr_get, rule b(1), (use b in simp))
    apply (rule index_safe_bindE, rule index_safe_deref)
    apply (rule index_safe_bindE, rule index_safe_lvl_get)
    apply (rule index_safe_bindE, rule index_safe_lvl_set)
    apply (rule ih)
      apply (simp_all add: nlevels_store nlevels_same)
    done
qed

lemma insert_splice_safe:
  assumes "0 \<le> i" "i + int n \<le> int (length update)" "i + int n \<le> int (length rank)"
  shows "index_safe (\<lambda>h'. nlevels h' = nlevels h) (insert_splice h x i n update rank)"
  using assms
proof (induction n arbitrary: h i)
  case 0
  then show ?case by (simp add: index_safe_Inr)
next
  case (Suc n)
  have b: "0 \<le> i" "i < int (length rank)" "i < int (length update)" "0 < int (length rank)"
    using Suc.prems by linarith+
  have ih: "index_safe (\<lambda>h'. nlevels h' = nlevels h) (insert_splice h1 x (i + 1) n update rank)"
    if "nlevels h1 = nlevels h" for h1
    using Suc.IH [of "i + 1" h1] Suc.prems that by simp
  show ?case
    apply (simp only: insert_splice.simps Let_def)
    apply ((rule index_safe_bindE,
        (rule index_safe_deref index_safe_lvl_get index_safe_lvl_set
         | (rule index_safe_arr_get, (use b in simp), (use b in simp))))+)
    apply (rule ih)
    apply (simp add: nlevels_store nlevels_same)
    done
qed

lemma insert_bump_safe:
  assumes "0 \<le> i" "i + int n \<le> int (length update)"
  shows "index_safe (\<lambda>h'. nlevels h' = nlevels h) (insert_bump h i n update)"
  using assms
proof (induction n arbitrary: h i)
  case 0
  then show ?case by (simp add: index_safe_Inr)
next
  case (Suc n)
  have b: "0 \<le> i" "i < int (length update)" using Suc.prems by simp_all
  have ih: "index_safe (\<lambda>h'. nlevels h' = nlevels h) (insert_bump h1 (i + 1) n update)"
    if "nlevels h1 = nlevels h" for h1
    using Suc.IH [of "i + 1" h1] Suc.prems that by simp
  show ?case
    apply (simp only: insert_bump.simps)
    apply ((rule index_safe_bindE,
        (rule index_safe_deref index_safe_lvl_get index_safe_lvl_set
         | (rule index_safe_arr_get, (use b in simp), (use b in simp))))+)
    apply (rule ih)
    apply (simp add: nlevels_store nlevels_same)
    done
qed

lemma bindE_Inr [simp]: "bindE (Inr x) f = f x"
  by (simp add: bindE_def)

lemma insert_finish_safe:
  assumes "length u1 = 32" "length r1 = 32" "1 \<le> k" "k \<le> zsl_level zsl1"
    "zsl_level zsl1 \<le> 32"
  shows "index_safe (\<lambda>(h', zsl', x', d). zsl_level zsl' = zsl_level zsl1 \<and>
                       nlevels h' = nlevels h2 \<and> x' = x \<and> d = di')
     (bindE (insert_splice h2 x 0 (nat k) u1 r1) (\<lambda>h3.
      bindE (insert_bump h3 k (nat (zsl_level zsl1 - k)) u1) (\<lambda>h4.
      bindE (arr_get u1 0) (\<lambda>u0.
      bindE (deref h4 x) (\<lambda>xn.
      bindE (deref (store h4 x (xn\<lparr>backward := (if u0 = header zsl1 then None else Some u0)\<rparr>)) x) (\<lambda>xn1.
      bindE (lvl_get xn1 0) (\<lambda>xl.
      bindE (case forward xl of
               Some f \<Rightarrow> bindE (deref (store h4 x (xn\<lparr>backward := (if u0 = header zsl1 then None else Some u0)\<rparr>)) f) (\<lambda>fn.
                           Inr (store (store h4 x (xn\<lparr>backward := (if u0 = header zsl1 then None else Some u0)\<rparr>)) f (fn\<lparr>backward := Some x\<rparr>), zsl1))
             | None \<Rightarrow> Inr (store h4 x (xn\<lparr>backward := (if u0 = header zsl1 then None else Some u0)\<rparr>), zsl1\<lparr>tail := Some x\<rparr>))
        (\<lambda>(h6, zsl2).
        Inr (h6, zsl2\<lparr>zsl_length := zsl_length zsl2 + 1\<rparr>, x, di')))))))))"
proof -
  have last: "index_safe (\<lambda>(h6, zsl2). nlevels h6 = nlevels h5 \<and> zsl_level zsl2 = zsl_level zsl1)
      (case fw of
         Some f \<Rightarrow> bindE (deref h5 f) (\<lambda>fn. Inr (store h5 f (fn\<lparr>backward := Some x\<rparr>), zsl1))
       | None \<Rightarrow> Inr (h5, zsl1\<lparr>tail := Some x\<rparr>))" for h5 fw
  proof (cases fw)
    case None
    then show ?thesis by (simp add: index_safe_Inr)
  next
    case (Some f)
    show ?thesis
      unfolding Some option.case
      apply (rule index_safe_bindE, rule index_safe_deref)
      apply (simp add: index_safe_Inr nlevels_store nlevels_same)
      done
  qed
  show ?thesis
    apply (rule index_safe_bindE, rule insert_splice_safe)
       apply simp
      apply (use assms in simp)
     apply (use assms in simp)
    apply (rule index_safe_bindE, rule insert_bump_safe)
      apply (use assms in simp)
     apply (use assms in simp)
    apply (rule index_safe_bindE, rule index_safe_arr_get)
      apply simp
     apply (use assms in simp)
    apply (rule index_safe_bindE, rule index_safe_deref)
    apply (rule index_safe_bindE, rule index_safe_deref)
    apply (rule index_safe_bindE, rule index_safe_lvl_get)
    apply (rule index_safe_bindE, rule last)
    apply (simp add: index_safe_Inr nlevels_store nlevels_same split_def)
    done
qed

lemma nlevels_create:
  "nlevels (h\<lparr>cells := (cells h)(brk h \<mapsto> n), brk := b\<rparr>) (brk h) = Some (length (level n))"
  by (simp add: nlevels_def)

lemma zslInsert_safe:
  assumes lv: "1 \<le> zsl_level zsl" "zsl_level zsl \<le> 32"
    and rl: "zslRandomLevel draws di = Some (k, di')" and k: "1 \<le> k" "k \<le> 32"
  shows "index_safe (\<lambda>(h', zsl', x, d). zsl_level zsl' = max (zsl_level zsl) k \<and>
                       nlevels h' x = Some (nat k) \<and> d = di')
           (zslInsert fuel sh draws di h zsl sc ob)"
proof -
  have len: "length update_new = 32" "length rank_new = 32"
    by (simp_all add: update_new_def rank_new_def ZSKIPLIST_MAXLEVEL_def)
  have "index_safe (\<lambda>(u, r). length u = length update_new \<and> length r = length rank_new)
      (insert_search fuel sh h zsl sc ob (nat (zsl_level zsl)) (header zsl) update_new rank_new)"
    by (rule insert_search_safe) (use lv len in simp_all)
  then have search: "index_safe (\<lambda>(u, r). length u = 32 \<and> length r = 32)
      (insert_search fuel sh h zsl sc ob (nat (zsl_level zsl)) (header zsl) update_new rank_new)"
    by (simp add: len)
  have raise: "index_safe (\<lambda>(h1, u1, r1, zsl1). length u1 = 32 \<and> length r1 = 32 \<and>
        nlevels h1 = nlevels h \<and> zsl_level zsl1 = max (zsl_level zsl) k)
      (if k > zsl_level zsl
       then bindE (insert_raise h zsl (zsl_level zsl) (nat (k - zsl_level zsl)) u r)
              (\<lambda>(h1, update1, rank1). Inr (h1, update1, rank1, zsl\<lparr>zsl_level := k\<rparr>))
       else Inr (h, u, r, zsl))"
    if ur: "length u = 32" "length r = 32" for u r
  proof (cases "k > zsl_level zsl")
    case True
    have "index_safe (\<lambda>(h', u', r'). length u' = length u \<and> length r' = length r \<and>
                         nlevels h' = nlevels h)
        (insert_raise h zsl (zsl_level zsl) (nat (k - zsl_level zsl)) u r)"
      by (rule insert_raise_safe) (use lv k ur True in simp_all)
    then show ?thesis
      using True ur
      apply (simp only: if_True)
      apply (erule index_safe_bindE)
      apply (auto simp: index_safe_Inr)
      done
  next
    case False
    then show ?thesis using ur by (simp add: index_safe_Inr max_def)
  qed
  show ?thesis
    unfolding zslInsert_def rl
    apply (rule index_safe_bindE, rule index_safe_redisAssert)
    apply (rule index_safe_bindE, rule search)
    apply (simp only: split_paired_all prod.case option.case bindE_Inr)
    apply (rule index_safe_bindE, erule conjE, rule raise, assumption, assumption)
    apply (simp (no_asm) only: split_paired_all prod.case zslCreateNode_def zmalloc_def Let_def)
    apply (rule index_safe_weaken, rule insert_finish_safe [where k = k])
         apply (use k lv in \<open>auto simp: nlevels_create\<close>)
    done
qed

lemma level_up_0: "level_up 0"
  by (simp add: level_up_def ZSKIPLIST_P_def)

lemma level_up_65535: "\<not> level_up 65535"
  by (simp add: level_up_def ZSKIPLIST_P_def)

text \<open>
  Claim C10 (as amended). When the first draw that fails the test of the loop comes after
  \<open>n < 2^31 - 1\<close> draws that pass it, \<open>zslRandomLevel\<close> returns \<open>k = min (n + 1) 32\<close>, which
  lies between 1 and \<open>ZSKIPLIST_MAXLEVEL\<close>. Then \<open>zslInsert\<close> into a list whose level lies
  between 1 and \<open>ZSKIPLIST_MAXLEVEL\<close> never indexes \<open>update[]\<close> or \<open>rank[]\<close> outside their
  \<open>ZSKIPLIST_MAXLEVEL\<close> entries, and when it returns, the node it created has \<open>k\<close> levels
  and the level of the list is the larger of its old level and \<open>k\<close>, again between 1 and
  \<open>ZSKIPLIST_MAXLEVEL\<close>.
\<close>

theorem C10_levels_and_indices_within_bounds:
  assumes d: "\<forall>j < n. level_up (draws (di + j))" "\<not> level_up (draws (di + n))" "n < 2 ^ 31 - 1"
    and lv: "1 \<le> zsl_level zsl" "zsl_level zsl \<le> int ZSKIPLIST_MAXLEVEL"
  shows "\<exists>k. zslRandomLevel draws di = Some (k, di + n + 1) \<and>
           k = min (int n + 1) (int ZSKIPLIST_MAXLEVEL) \<and> 1 \<le> k \<and> k \<le> int ZSKIPLIST_MAXLEVEL \<and>
           zslInsert fuel sh draws di h zsl sc ob \<noteq> Inl ArrayIndex \<and>
           (\<forall>h' zsl' x di'. zslInsert fuel sh draws di h zsl sc ob = Inr (h', zsl', x, di') \<longrightarrow>
              nlevels h' x = Some (nat k) \<and> zsl_level zsl' = max (zsl_level zsl) k \<and>
              1 \<le> zsl_level zsl' \<and> zsl_level zsl' \<le> int ZSKIPLIST_MAXLEVEL)"
proof -
  let ?k = "min (int n + 1) 32"
  have rl: "zslRandomLevel draws di = Some (?k, di + n + 1)"
    using zslRandomLevel_value [OF d] .
  have k: "1 \<le> ?k" "?k \<le> 32" by simp_all
  have lv': "1 \<le> zsl_level zsl" "zsl_level zsl \<le> 32"
    using lv by (simp_all add: ZSKIPLIST_MAXLEVEL_def)
  note s = zslInsert_safe [OF lv' rl k, of fuel sh h sc ob]
  have a: "zslInsert fuel sh draws di h zsl sc ob \<noteq> Inl ArrayIndex"
    using s by (simp add: index_safe_def)
  have b: "nlevels h' x = Some (nat ?k) \<and> zsl_level zsl' = max (zsl_level zsl) ?k \<and>
      1 \<le> zsl_level zsl' \<and> zsl_level zsl' \<le> int ZSKIPLIST_MAXLEVEL"
    if "zslInsert fuel sh draws di h zsl sc ob = Inr (h', zsl', x, di')" for h' zsl' x di'
  proof -
    from s that have "zsl_level zsl' = max (zsl_level zsl) ?k \<and> nlevels h' x = Some (nat ?k)"
      by (simp add: index_safe_def)
    then show ?thesis using lv' k by (simp add: ZSKIPLIST_MAXLEVEL_def)
  qed
  show ?thesis
    apply (rule exI [of _ ?k])
    using rl k a b lv' by (simp add: ZSKIPLIST_MAXLEVEL_def le_max_iff_disj)
qed

theorem C10_witness:
  "level_up (draws_level3 0) \<and> level_up (draws_level3 1) \<and> \<not> level_up (draws_level3 2) \<and>
   zsl_level (snd (zslCreate heap_empty)) = 1 \<and>
   zslRandomLevel draws_level3 0 = Some (3, 3) \<and>
   (\<exists>h' zsl' x di'.
      zslInsert 4 sh0 draws_level3 0 (fst (zslCreate heap_empty)) (snd (zslCreate heap_empty))
        (Finite 1) (Str ''a'') = Inr (h', zsl', x, di') \<and>
      nlevels h' x = Some 3 \<and> zsl_level zsl' = 3)"
proof -
  have d: "\<forall>j < 2. level_up (draws_level3 (0 + j))" "\<not> level_up (draws_level3 (0 + 2))"
    "(2::nat) < 2 ^ 31 - 1"
    by (simp_all add: draws_level3_def level_up_0 level_up_65535)
  have lv: "1 \<le> zsl_level (snd (zslCreate heap_empty))"
    "zsl_level (snd (zslCreate heap_empty)) \<le> int ZSKIPLIST_MAXLEVEL"
    "zsl_level (snd (zslCreate heap_empty)) = 1"
    by (simp_all add: zslCreate_def zslCreateNode_def zmalloc_def Let_def ZSKIPLIST_MAXLEVEL_def)
  from C10_levels_and_indices_within_bounds [OF d lv(1,2), of 4 sh0 "fst (zslCreate heap_empty)"
      "Finite 1" "Str ''a''"]
  have rl: "zslRandomLevel draws_level3 0 = Some (3, 3)"
    and ins: "\<And>h' zsl' x di'.
      zslInsert 4 sh0 draws_level3 0 (fst (zslCreate heap_empty)) (snd (zslCreate heap_empty))
        (Finite 1) (Str ''a'') = Inr (h', zsl', x, di') \<Longrightarrow>
      nlevels h' x = Some 3 \<and> zsl_level zsl' = 3"
    by (simp_all add: ZSKIPLIST_MAXLEVEL_def lv(3))
  have "\<exists>r. zslInsert 4 sh0 draws_level3 0 (fst (zslCreate heap_empty))
      (snd (zslCreate heap_empty)) (Finite 1) (Str ''a'') = Inr r"
    by (simp add: skiplist_eval rl)
  then obtain r0 where
    r0: "zslInsert 4 sh0 draws_level3 0 (fst (zslCreate heap_empty))
      (snd (zslCreate heap_empty)) (Finite 1) (Str ''a'') = Inr r0"
    by blast
  obtain h' zsl' x di' where "r0 = (h', zsl', x, di')" by (cases r0) auto
  with r0 have
    r: "zslInsert 4 sh0 draws_level3 0 (fst (zslCreate heap_empty))
      (snd (zslCreate heap_empty)) (Finite 1) (Str ''a'') = Inr (h', zsl', x, di')"
    by simp
  have p: "level_up (draws_level3 0)" "level_up (draws_level3 1)" "\<not> level_up (draws_level3 2)"
    by (simp_all add: draws_level3_def level_up_0 level_up_65535)
  from ins [OF r] r p lv(3) rl show ?thesis by blast
qed

text \<open>
  Claim C10 as stated fails for the sequence whose draws all pass the test: the loop of
  \<open>zslRandomLevel\<close> never ends, so no level is returned and \<open>zslInsert\<close> does not return.
\<close>

theorem C10_counterexample:
  "(\<forall>j. level_up (draws_pass j)) \<and> zslRandomLevel draws_pass 0 = None \<and>
   zslInsert 4 sh0 draws_pass 0 (fst (zslCreate heap_empty)) (snd (zslCreate heap_empty))
     (Finite 1) (Str ''a'') = Inl OutOfFuel"
proof -
  have p: "\<forall>j. level_up (draws_pass j)" by (simp add: draws_pass_def level_up_0)
  have "zslRandomLevel_loop draws_pass 0 1 = None"
  proof (cases "zslRandomLevel_loop draws_pass 0 1")
    case (Some r)
    from zslRandomLevel_loop_returns_after_failed_test [OF Some] p show ?thesis by blast
  qed simp
  then have n: "zslRandomLevel draws_pass 0 = None" by (simp add: zslRandomLevel_def)
  have "zslInsert 4 sh0 draws_pass 0 (fst (zslCreate heap_empty)) (snd (zslCreate heap_empty))
     (Finite 1) (Str ''a'') = Inl OutOfFuel"
    by (simp add: skiplist_eval n)
  with p n show ?thesis by blast
qed

end
